theory Spec2Isabelle
  imports Complex_Main "HOL-Library.Multiset"
begin

section \<open>Data model\<close>

text \<open>
  The trend engine of airadar (package \<open>trend\<close>) and the parts of package \<open>store\<close> it
  consumes. Go's \<open>float64\<close> is modelled by \<open>real\<close>: every statement below is about the
  exact arithmetic the code denotes, not about rounding. Go's \<open>int\<close> is modelled by
  \<open>int\<close>; the sums and differences of scores the engine forms are assumed to stay inside
  64 bits. A \<open>time.Time\<close> is the number of nanoseconds since the epoch, a
  \<open>time.Duration\<close> a number of nanoseconds.
\<close>

type_synonym SourceType = string
type_synonym time = int

text \<open>
  A title is the one string whose characters the engine inspects. It is kept as the
  sequence of runes (Unicode code points, Go's \<open>int32\<close>) that Go decodes from its UTF-8
  bytes; two titles or tokens are equal as Go strings exactly when their rune sequences
  are equal. The other strings are only compared and copied, and stay byte strings.
\<close>

type_synonym rune = int
type_synonym token = "rune list"

text \<open>\<open>source.Item\<close>; the fields no function of the engine reads are left out.\<close>

record Item =
  i_ID :: string
  i_Source :: SourceType
  i_Title :: "rune list"
  i_URL :: string
  i_Description :: string
  i_Score :: int

text \<open>\<open>store.Snapshot\<close>\<close>

record Snapshot =
  s_ID :: int
  s_ItemID :: string
  s_Score :: int
  s_Comments :: int
  s_CheckedAt :: time

text \<open>\<open>store.Trend\<close>\<close>

record Trend =
  t_ID :: int
  t_Topic :: "rune list"
  t_Score :: real
  t_SourceCount :: int
  t_ItemIDs :: "string list"
  t_FirstSeen :: time
  t_LastUpdated :: time
  t_Alerted :: bool

text \<open>
  \<open>trend.TopicCluster\<close>. \<open>Sources\<close> is a \<open>map[SourceType]bool\<close> that only ever
  receives the value \<open>true\<close>: it is kept as the list of its keys, each key once.
\<close>

record TopicCluster =
  c_Topic :: "rune list"
  c_Items :: "Item list"
  c_Sources :: "SourceType list"
  c_TotalScore :: int
  c_MaxVelocity :: real

section \<open>Similarity tokenizer\<close>

text \<open>
  The tables of Go's package \<open>unicode\<close> that \<open>significantTokens\<close> consults:
  \<open>unicode.IsLetter\<close>, \<open>unicode.IsDigit\<close> and \<open>unicode.ToLower\<close> (through
  \<open>strings.ToLower\<close>, which maps it over the runes of the string). They belong to the
  standard library, not to the repository, and are a parameter of the model.
\<close>

record Unicode =
  IsLetter :: "rune \<Rightarrow> bool"
  IsDigit :: "rune \<Rightarrow> bool"
  ToLower :: "rune \<Rightarrow> rune"

text \<open>The runes of a string literal of the source, which is ASCII.\<close>

definition runes :: "string \<Rightarrow> rune list" where
  "runes s = map of_char s"

text \<open>
  \<open>len(w)\<close> counts the bytes of the UTF-8 encoding of \<open>w\<close>: one to four bytes for a
  rune, and the three bytes of U+FFFD for a value that is not a valid code point.
\<close>

definition runeLen :: "rune \<Rightarrow> nat" where
  "runeLen r =
     (if r < 128 then 1 else if r < 2048 then 2 else if r < 65536 then 3
      else if r \<le> 1114111 then 4 else 3)"

definition byteLen :: "rune list \<Rightarrow> nat" where
  "byteLen w = sum_list (map runeLen w)"

definition stopwords :: "string list" where
  "stopwords =
    [''a'', ''an'', ''the'', ''and'', ''or'',
     ''but'', ''in'', ''on'', ''at'', ''to'',
     ''for'', ''of'', ''with'', ''by'', ''from'',
     ''is'', ''are'', ''was'', ''were'', ''be'',
     ''been'', ''being'', ''have'', ''has'', ''had'',
     ''do'', ''does'', ''did'', ''will'', ''would'',
     ''could'', ''should'', ''may'', ''might'',
     ''this'', ''that'', ''these'', ''those'',
     ''it'', ''its'', ''i'', ''we'', ''you'',
     ''he'', ''she'', ''they'', ''my'', ''your'',
     ''how'', ''what'', ''when'', ''where'', ''why'',
     ''not'', ''no'', ''new'', ''just'', ''about'',
     ''up'', ''out'', ''if'', ''so'', ''can'',
     ''all'', ''more'', ''also'', ''than'', ''very'']"

text \<open>
  \<open>strings.FieldsFunc\<close>: the maximal runs of runes that are not separators.
  \<open>cur\<close> is the field being read, in reverse.
\<close>

fun fieldsFunc :: "(rune \<Rightarrow> bool) \<Rightarrow> rune list \<Rightarrow> rune list \<Rightarrow> rune list list" where
  "fieldsFunc sep cur [] = (if cur = [] then [] else [rev cur])"
| "fieldsFunc sep cur (c # cs) =
     (if sep c then (if cur = [] then fieldsFunc sep [] cs else rev cur # fieldsFunc sep [] cs)
      else fieldsFunc sep (c # cur) cs)"

text \<open>\<open>significantTokens\<close>\<close>

definition significantTokens :: "Unicode \<Rightarrow> rune list \<Rightarrow> token list" where
  "significantTokens u title =
     (let words = fieldsFunc (\<lambda>r. \<not> IsLetter u r \<and> \<not> IsDigit u r) [] (map (ToLower u) title)
      in filter (\<lambda>w. byteLen w \<ge> 2 \<and> w \<notin> set (map runes stopwords)) words)"

section \<open>Jaccard similarity\<close>

text \<open>
  \<open>jaccardSimilarity\<close>. \<open>setA\<close> and \<open>setB\<close> are the key sets of the two maps, here the
  token lists without repetitions; the loop over \<open>setA\<close> counts the keys that are in
  \<open>setB\<close>.
\<close>

definition jaccardSimilarity :: "'a list \<Rightarrow> 'a list \<Rightarrow> real" where
  "jaccardSimilarity a b =
     (if length a = 0 \<or> length b = 0 then 0
      else
        let setA = remdups a;
            setB = remdups b;
            intersection = int (length (filter (\<lambda>t. t \<in> set setB) setA));
            unionSize = int (length setA) + int (length setB) - intersection
        in if unionSize = 0 then 0
           else real_of_int intersection / real_of_int unionSize)"

section \<open>Errors and the store interface\<close>

text \<open>
  A Go \<open>error\<close> value: a failure reported by a collaborator, or one wrapped by
  \<open>fmt.Errorf("...: %w", err)\<close>.
\<close>

datatype error = Failure string | Wrapped string error

text \<open>\<open>store.ListOpts\<close>\<close>

record ListOpts =
  lo_Source :: SourceType
  lo_Since :: time
  lo_Limit :: int

text \<open>
  \<open>store.Store\<close>, the methods the engine calls. The engine holds an implementation of
  the interface; \<open>'s\<close> is the state that implementation keeps. A read returns its rows
  or an error; a write returns the new state with its error, if any. \<open>UpsertTrend\<close>
  receives a pointer to the trend and may assign its identifier: on success it returns
  the trend as the caller sees it afterwards.
\<close>

record 's Store =
  ListItems :: "'s \<Rightarrow> ListOpts \<Rightarrow> error + Item list"
  GetSnapshots :: "'s \<Rightarrow> string \<Rightarrow> time \<Rightarrow> error + Snapshot list"
  ClearTrends :: "'s \<Rightarrow> 's \<times> error option"
  UpsertTrend :: "'s \<Rightarrow> Trend \<Rightarrow> 's \<times> (error + Trend)"

text \<open>
  \<open>SQLiteStore.GetSnapshots\<close>. The database is the table \<open>score_snapshots\<close> and the
  failure, if any, that the driver reports for the statement. The query selects the rows
  of the item with \<open>checked_at >= since\<close>, ordered by \<open>checked_at\<close> (rows with equal
  timestamps are kept in table order).
\<close>

record DB =
  score_snapshots :: "Snapshot list"
  db_failure :: "error option"

definition SQLiteStore_GetSnapshots :: "DB \<Rightarrow> string \<Rightarrow> time \<Rightarrow> error + Snapshot list" where
  "SQLiteStore_GetSnapshots db itemID since =
     (case db_failure db of
        Some err \<Rightarrow> Inl (Wrapped ''get snapshots'' err)
      | None \<Rightarrow>
          Inr (sort_key s_CheckedAt
                 (filter (\<lambda>r. s_ItemID r = itemID \<and> s_CheckedAt r \<ge> since) (score_snapshots db))))"

section \<open>The LLM evaluator\<close>

text \<open>\<open>trend.LLMResult\<close>\<close>

record LLMResult =
  r_ID :: string
  r_Score :: int
  r_Reason :: string
  r_Topic :: "rune list"

text \<open>
  The provider is outside the program. The text of a reply is kept as what
  \<open>json.Unmarshal\<close> makes of it once \<open>EvaluateItems\<close> has trimmed it and removed a code
  fence: either it does not parse (\<open>Garbled\<close>) or it is an array of results. An HTTP
  exchange fails before it starts when the request cannot be built, fails in transport,
  or yields a status code and a body; the body is \<open>None\<close> when it does not decode, and
  otherwise the texts of its choices (OpenAI) or content blocks (Anthropic).
\<close>

datatype llm_text = Garbled | Results "LLMResult list"

datatype http_reply = RequestError | NetworkError | Response nat "llm_text list option"

text \<open>
  \<open>trend.LLMEvaluator\<close>. \<open>client\<close> gives the reply to the single POST that carries the
  prompt built from the items.
\<close>

record LLMEvaluator =
  client :: "Item list \<Rightarrow> http_reply"
  provider :: string
  model :: string
  apiKey :: string
  baseURL :: string
  minScore :: real

definition NewLLMEvaluator ::
  "(Item list \<Rightarrow> http_reply) \<Rightarrow> string \<Rightarrow> string \<Rightarrow> string \<Rightarrow> string \<Rightarrow> real \<Rightarrow> LLMEvaluator" where
  "NewLLMEvaluator cl prov mdl key url minS =
     \<lparr>client = cl, provider = prov,
      model = (if mdl = [] then (if prov = ''anthropic'' then ''claude-sonnet-4-20250514'' else ''gpt-4o-mini'')
               else mdl),
      apiKey = key, baseURL = url,
      minScore = (if minS \<le> 0 then 6 else minS)\<rparr>"

definition callOpenAI :: "LLMEvaluator \<Rightarrow> Item list \<Rightarrow> error + llm_text" where
  "callOpenAI e items =
     (case client e items of
        RequestError \<Rightarrow> Inl (Wrapped ''create openai request'' (Failure ''url''))
      | NetworkError \<Rightarrow> Inl (Wrapped ''call openai'' (Failure ''transport''))
      | Response status body \<Rightarrow>
          if status \<noteq> 200 then Inl (Failure ''openai status'')
          else (case body of
                  None \<Rightarrow> Inl (Wrapped ''decode openai response'' (Failure ''json''))
                | Some [] \<Rightarrow> Inl (Failure ''openai: no choices returned'')
                | Some (content # _) \<Rightarrow> Inr content))"

definition callAnthropic :: "LLMEvaluator \<Rightarrow> Item list \<Rightarrow> error + llm_text" where
  "callAnthropic e items =
     (case client e items of
        RequestError \<Rightarrow> Inl (Wrapped ''create anthropic request'' (Failure ''url''))
      | NetworkError \<Rightarrow> Inl (Wrapped ''call anthropic'' (Failure ''transport''))
      | Response status body \<Rightarrow>
          if status \<noteq> 200 then Inl (Failure ''anthropic status'')
          else (case body of
                  None \<Rightarrow> Inl (Wrapped ''decode anthropic response'' (Failure ''json''))
                | Some [] \<Rightarrow> Inl (Failure ''anthropic: no content returned'')
                | Some (content # _) \<Rightarrow> Inr content))"

text \<open>\<open>LLMEvaluator.EvaluateItems\<close>\<close>

definition EvaluateItems :: "LLMEvaluator \<Rightarrow> Item list \<Rightarrow> error + LLMResult list" where
  "EvaluateItems e items =
     (if length items = 0 then Inr []
      else
        case (if provider e = ''anthropic'' then callAnthropic e items else callOpenAI e items) of
          Inl err \<Rightarrow> Inl err
        | Inr raw \<Rightarrow>
            (case raw of
               Garbled \<Rightarrow> Inl (Wrapped ''parse llm response'' (Failure ''json''))
             | Results results \<Rightarrow>
                 Inr (filter (\<lambda>r. real_of_int (r_Score r) \<ge> minScore e) results)))"

section \<open>The engine\<close>

text \<open>\<open>trend.Engine\<close>; \<open>llm\<close> is \<open>None\<close> when the evaluator is disabled.\<close>

record 's Engine =
  store :: "'s Store"
  velocityWeight :: real
  crossSourceWeight :: real
  absoluteWeight :: real
  llm :: "LLMEvaluator option"

definition NewEngine ::
  "'s Store \<Rightarrow> real \<Rightarrow> real \<Rightarrow> real \<Rightarrow> LLMEvaluator option \<Rightarrow> 's Engine" where
  "NewEngine s velocityW crossSourceW absoluteW l =
     (if velocityW + crossSourceW + absoluteW = 0
      then \<lparr>store = s, velocityWeight = 0.3, crossSourceWeight = 0.5, absoluteWeight = 0.2, llm = l\<rparr>
      else \<lparr>store = s, velocityWeight = velocityW, crossSourceWeight = crossSourceW,
            absoluteWeight = absoluteW, llm = l\<rparr>)"

text \<open>
  \<open>Engine.llmFilter\<close> returns its two results as a pair. \<open>resultMap\<close> is filled in the
  order of the results, a later result for the same identifier replacing an earlier one.
\<close>

definition llmFilter :: "LLMEvaluator \<Rightarrow> Item list \<Rightarrow> Item list \<times> error option" where
  "llmFilter ev items =
     (case EvaluateItems ev items of
        Inl err \<Rightarrow> (items, Some err)
      | Inr results \<Rightarrow>
          if length results = 0 then ([], None)
          else
            let resultMap = map_of (rev (map (\<lambda>r. (r_ID r, r)) results));
                filtered = concat (map (\<lambda>item.
                    case resultMap (i_ID item) of
                      None \<Rightarrow> []
                    | Some r \<Rightarrow> [if r_Topic r \<noteq> [] then item\<lparr>i_Title := r_Topic r\<rparr> else item]) items)
            in (filtered, None))"

subsection \<open>Clustering\<close>

text \<open>
  The disjoint-set forest of \<open>clusterItems\<close> is the list of parents. \<open>find\<close> with path
  compression returns the forest it leaves behind together with the root. The value
  \<open>None\<close> stands for a call that does not return: an index out of range panics, and a
  cycle of parents would recurse without end.
\<close>

partial_function (option) uf_find :: "nat list \<Rightarrow> nat \<Rightarrow> (nat list \<times> nat) option" where
  "uf_find uf x =
     (if x \<ge> length uf then None
      else if uf ! x \<noteq> x
        then Option.bind (uf_find uf (uf ! x)) (\<lambda>(uf', r). Some (uf'[x := r], r))
        else Some (uf, x))"

declare uf_find.simps [code]

definition uf_union :: "nat list \<Rightarrow> nat \<Rightarrow> nat \<Rightarrow> nat list option" where
  "uf_union uf x y =
     Option.bind (uf_find uf x) (\<lambda>(uf1, px).
     Option.bind (uf_find uf1 y) (\<lambda>(uf2, py).
       Some (if px \<noteq> py then uf2[px := py] else uf2)))"

text \<open>The two nested loops over the pairs \<open>i < j\<close>.\<close>

fun compareInner :: "token list list \<Rightarrow> nat \<Rightarrow> nat list \<Rightarrow> nat list \<Rightarrow> nat list option" where
  "compareInner tokens i [] uf = Some uf"
| "compareInner tokens i (j # js) uf =
     Option.bind
       (if jaccardSimilarity (tokens ! i) (tokens ! j) \<ge> 0.3 then uf_union uf i j else Some uf)
       (compareInner tokens i js)"

fun compareAll :: "token list list \<Rightarrow> nat \<Rightarrow> nat list \<Rightarrow> nat list \<Rightarrow> nat list option" where
  "compareAll tokens n [] uf = Some uf"
| "compareAll tokens n (i # is) uf =
     Option.bind (compareInner tokens i [i + 1 ..< n] uf) (compareAll tokens n is)"

text \<open>
  \<open>groups\<close> is a \<open>map[int][]int\<close>. It is kept as the list of its entries in the order the
  keys were first written; Go ranges over the map in an unspecified order, so the order
  of the clusters is one of the orders the program can produce.
\<close>

definition appendGroup :: "(nat \<times> nat list) list \<Rightarrow> nat \<Rightarrow> nat \<Rightarrow> (nat \<times> nat list) list" where
  "appendGroup groups rt i =
     (case map_of groups rt of
        None \<Rightarrow> groups @ [(rt, [i])]
      | Some _ \<Rightarrow> map (\<lambda>(k, v). if k = rt then (k, v @ [i]) else (k, v)) groups)"

fun groupByRoot ::
  "nat list \<Rightarrow> nat list \<Rightarrow> (nat \<times> nat list) list \<Rightarrow> (nat \<times> nat list) list option" where
  "groupByRoot [] uf groups = Some groups"
| "groupByRoot (i # is) uf groups =
     Option.bind (uf_find uf i) (\<lambda>(uf', rt). groupByRoot is uf' (appendGroup groups rt i))"

text \<open>
  The index lists of the groups, after all pairs have been compared: the values of
  \<open>groups\<close> in \<open>clusterItems\<close>.
\<close>

definition clusterGroups :: "Unicode \<Rightarrow> Item list \<Rightarrow> nat list list option" where
  "clusterGroups u items =
     (let n = length items;
          uf = [0 ..< n];
          tokens = map (\<lambda>item. significantTokens u (i_Title item)) items
      in Option.bind (compareAll tokens n [0 ..< n] uf) (\<lambda>uf1.
         Option.bind (groupByRoot [0 ..< n] uf1 []) (\<lambda>groups.
           Some (map snd groups))))"

text \<open>
  The body of the loop over the groups: one cluster from one index list. Reading
  \<open>clusterItems[0]\<close> of an empty group, or an item at an index out of range, panics.
\<close>

definition buildCluster :: "Item list \<Rightarrow> nat list \<Rightarrow> TopicCluster option" where
  "buildCluster items indices =
     (if indices = [] \<or> \<not> list_all (\<lambda>idx. idx < length items) indices then None
      else
        let clusterItems = map (\<lambda>idx. items ! idx) indices;
            sources = remdups (map i_Source clusterItems);
            totalScore = sum_list (map i_Score clusterItems);
            best = fold (\<lambda>item best. if i_Score item > i_Score best then item else best)
                     clusterItems (hd clusterItems)
        in Some \<lparr>c_Topic = i_Title best, c_Items = clusterItems, c_Sources = sources,
                 c_TotalScore = totalScore, c_MaxVelocity = 0\<rparr>)"

fun buildClusters :: "Item list \<Rightarrow> nat list list \<Rightarrow> TopicCluster list option" where
  "buildClusters items [] = Some []"
| "buildClusters items (g # gs) =
     Option.bind (buildCluster items g) (\<lambda>c.
     Option.bind (buildClusters items gs) (\<lambda>cs. Some (c # cs)))"

text \<open>\<open>Engine.clusterItems\<close>\<close>

definition clusterItems :: "Unicode \<Rightarrow> Item list \<Rightarrow> TopicCluster list option" where
  "clusterItems u items = Option.bind (clusterGroups u items) (buildClusters items)"

subsection \<open>Velocity and scoring\<close>

definition hour :: int where
  "hour = 3600000000000"

text \<open>
  \<open>Engine.itemVelocity\<close>; \<open>now\<close> is the value of \<open>time.Now()\<close>.
  \<open>Duration.Hours()\<close> is the duration divided by one hour.
\<close>

definition itemVelocity :: "'s Engine \<Rightarrow> 's \<Rightarrow> time \<Rightarrow> Item \<Rightarrow> real" where
  "itemVelocity e s now item =
     (case GetSnapshots (store e) s (i_ID item) (now - 6 * hour) of
        Inl err \<Rightarrow> 0
      | Inr snaps \<Rightarrow>
          if length snaps < 2 then 0
          else
            let first = snaps ! 0;
                lst = snaps ! (length snaps - 1);
                hours = real_of_int (s_CheckedAt lst - s_CheckedAt first) / real_of_int hour
            in if hours < 0.1 then 0
               else real_of_int (s_Score lst - s_Score first) / hours)"

text \<open>
  The three components of \<open>Engine.scoreCluster\<close>, named after its local variables.
\<close>

definition crossScore :: "TopicCluster \<Rightarrow> real" where
  "crossScore cluster =
     (let c = real (length (c_Sources cluster)) * 20 in if c > 100 then 100 else c)"

definition velocityScore :: "'s Engine \<Rightarrow> 's \<Rightarrow> time \<Rightarrow> TopicCluster \<Rightarrow> real" where
  "velocityScore e s now cluster =
     (let v = fold (\<lambda>item velocityScore.
                      let v = itemVelocity e s now item
                      in if v > velocityScore then v else velocityScore)
                (c_Items cluster) 0
      in if v > 100 then 100 else v)"

text \<open>
  With a positive total and no item the quotient is \<open>+Inf\<close> in \<open>float64\<close>, which is
  above 1000.
\<close>

definition absoluteScore :: "TopicCluster \<Rightarrow> real" where
  "absoluteScore cluster =
     (if c_TotalScore cluster > 0 then
        if length (c_Items cluster) = 0 then 100
        else
          let avg = real_of_int (c_TotalScore cluster) / real (length (c_Items cluster))
          in if avg > 1000 then 100
             else if avg > 100 then 60 + (avg - 100) / 900 * 40
             else if avg > 10 then 20 + (avg - 10) / 90 * 40
             else avg / 10 * 20
      else 0)"

definition scoreCluster :: "'s Engine \<Rightarrow> 's \<Rightarrow> time \<Rightarrow> TopicCluster \<Rightarrow> real" where
  "scoreCluster e s now cluster =
     crossScore cluster * crossSourceWeight e
     + velocityScore e s now cluster * velocityWeight e
     + absoluteScore cluster * absoluteWeight e"

subsection \<open>The detection cycle\<close>

text \<open>
  The trend that the loop of \<open>Detect\<close> builds for a cluster with the given score; its
  identifier is still zero.
\<close>

definition newTrend :: "real \<Rightarrow> time \<Rightarrow> TopicCluster \<Rightarrow> Trend" where
  "newTrend score now cluster =
     \<lparr>t_ID = 0, t_Topic = c_Topic cluster, t_Score = score,
      t_SourceCount = int (length (c_Sources cluster)),
      t_ItemIDs = map i_ID (c_Items cluster),
      t_FirstSeen = now, t_LastUpdated = now, t_Alerted = False\<rparr>"

text \<open>
  The loop of \<open>Detect\<close> over the clusters: a trend whose upsert fails is reported on
  standard output and left out.
\<close>

fun scoreAll :: "'s Engine \<Rightarrow> time \<Rightarrow> TopicCluster list \<Rightarrow> 's \<Rightarrow> Trend list \<Rightarrow> 's \<times> Trend list" where
  "scoreAll e now [] s trends = (s, trends)"
| "scoreAll e now (cluster # clusters) s trends =
     (let score = scoreCluster e s now cluster;
          trend = newTrend score now cluster
      in case UpsertTrend (store e) s trend of
           (s', Inl err) \<Rightarrow> scoreAll e now clusters s' trends
         | (s', Inr trend') \<Rightarrow> scoreAll e now clusters s' (trends @ [trend']))"

text \<open>The options with which \<open>Detect\<close> lists the recent items.\<close>

definition listOpts :: "time \<Rightarrow> ListOpts" where
  "listOpts now = \<lparr>lo_Source = [], lo_Since = now - 24 * hour, lo_Limit = 1000\<rparr>"

text \<open>
  \<open>Engine.Detect\<close>: the state of the store it leaves and the pair it returns, \<open>Inl\<close> for
  a non-nil error. The calls of \<open>time.Now()\<close> within one cycle are taken to return the
  same instant \<open>now\<close>. \<open>sort.Slice\<close> with the comparison
  \<open>trends[i].Score > trends[j].Score\<close> is a sort by descending score; it promises no order
  among equal scores, the model keeps them in their order. \<open>u\<close> stands for the tables
  of package \<open>unicode\<close>.
\<close>

definition Detect ::
  "Unicode \<Rightarrow> 's Engine \<Rightarrow> 's \<Rightarrow> time \<Rightarrow> ('s \<times> (error + Trend list)) option" where
  "Detect u e s now =
     (case ListItems (store e) s (listOpts now) of
        Inl err \<Rightarrow> Some (s, Inl (Wrapped ''list recent items'' err))
      | Inr items \<Rightarrow>
          if length items = 0 then Some (s, Inr [])
          else
            (case ClearTrends (store e) s of
               (s1, Some err) \<Rightarrow> Some (s1, Inl (Wrapped ''clear trends'' err))
             | (s1, None) \<Rightarrow>
                 let items1 = (case llm e of None \<Rightarrow> items | Some ev \<Rightarrow> fst (llmFilter ev items))
                 in if llm e \<noteq> None \<and> length items1 = 0 then Some (s1, Inr [])
                    else
                      Option.bind (clusterItems u items1) (\<lambda>clusters.
                        let (s2, trends) = scoreAll e now clusters s1 []
                        in Some (s2, Inr (sort_key (\<lambda>t. - t_Score t) trends)))))"

section \<open>Tokens and connected items in the words of the specification\<close>

text \<open>
  The tokenizer's contract: the tokens of a title are the lowercase alphanumeric tokens of
  length at least 2 that are not stopwords, where runs of runes that are neither letters
  nor digits separate the tokens. So a token is a maximal run of letters and digits of the
  lowercased title: a non-empty stretch of it without a separator, with a separator or an
  end of the title on either side. The length of a token is its length as a Go string, in
  bytes.
\<close>

definition spec_run :: "(rune \<Rightarrow> bool) \<Rightarrow> rune list \<Rightarrow> rune list \<Rightarrow> bool" where
  "spec_run sep t w =
     (\<exists>pre suf. t = pre @ w @ suf \<and> w \<noteq> [] \<and> (\<forall>r \<in> set w. \<not> sep r)
        \<and> (pre = [] \<or> sep (last pre)) \<and> (suf = [] \<or> sep (hd suf)))"

definition spec_tokens :: "Unicode \<Rightarrow> rune list \<Rightarrow> token set" where
  "spec_tokens u title =
     {w. spec_run (\<lambda>r. \<not> (IsLetter u r \<or> IsDigit u r)) (map (ToLower u) title) w
         \<and> 2 \<le> byteLen w \<and> w \<notin> runes ` set stopwords}"

text \<open>
  The Jaccard similarity of two token sets: the size of the intersection over the size of
  the union, and 0 if either set is empty.
\<close>

definition spec_jaccard :: "token set \<Rightarrow> token set \<Rightarrow> real" where
  "spec_jaccard A B =
     (if A = {} \<or> B = {} then 0 else real (card (A \<inter> B)) / real (card (A \<union> B)))"

text \<open>
  Two positions of the input are directly connected when the Jaccard similarity of the
  token sets of their titles is at least 0.3; they are connected when a chain of direct
  connections leads from one to the other, that is, when the pair is in the reflexive
  transitive closure of \<open>spec_similar\<close>.
\<close>

definition spec_similar :: "Unicode \<Rightarrow> Item list \<Rightarrow> (nat \<times> nat) set" where
  "spec_similar u items =
     {(i, j). i < length items \<and> j < length items
        \<and> spec_jaccard (spec_tokens u (i_Title (items ! i)))
                        (spec_tokens u (i_Title (items ! j))) \<ge> 0.3}"

section \<open>Roots of the forest\<close>

text \<open>
  \<open>root_of uf x r\<close>: following the parents from \<open>x\<close> inside the forest ends at the root
  \<open>r\<close>.
\<close>

inductive root_of :: "nat list \<Rightarrow> nat \<Rightarrow> nat \<Rightarrow> bool" for uf :: "nat list" where
  here: "x < length uf \<Longrightarrow> uf ! x = x \<Longrightarrow> root_of uf x x"
| up: "x < length uf \<Longrightarrow> uf ! x \<noteq> x \<Longrightarrow> root_of uf (uf ! x) r \<Longrightarrow> root_of uf x r"

text \<open>
  The invariant of the comparison loops, for \<open>n\<close> items with direct connections \<open>E\<close>
  after the pairs \<open>P\<close> have been united: every position has a root, a position is
  connected to its root, and the two positions of a united pair have the same root.
\<close>

definition forest_inv :: "nat \<Rightarrow> (nat \<times> nat) set \<Rightarrow> (nat \<times> nat) set \<Rightarrow> nat list \<Rightarrow> bool" where
  "forest_inv n E P uf =
     (length uf = n
      \<and> (\<forall>x<n. \<exists>r. root_of uf x r)
      \<and> (\<forall>x r. root_of uf x r \<longrightarrow> (x, r) \<in> E\<^sup>*)
      \<and> (\<forall>(i, j) \<in> P. \<exists>r. root_of uf i r \<and> root_of uf j r))"

text \<open>
  The invariant of the grouping loop: the keys of \<open>groups\<close> are distinct, every group is
  non-empty and holds positions whose root (in the relation \<open>R\<close>) is its key, and the
  groups together hold the positions seen so far, each once.
\<close>

definition groups_inv :: "(nat \<Rightarrow> nat \<Rightarrow> bool) \<Rightarrow> nat list \<Rightarrow> (nat \<times> nat list) list \<Rightarrow> bool" where
  "groups_inv R seen groups =
     (distinct (map fst groups)
      \<and> (\<forall>(k, v) \<in> set groups. v \<noteq> [] \<and> (\<forall>x \<in> set v. R x k))
      \<and> mset (concat (map snd groups)) = mset seen)"

section \<open>The piecewise scale in the words of the specification\<close>

text \<open>
  "Linear \<open>y0\<close> to \<open>y1\<close> for the mean in \<open>(x0, x1]\<close>": the straight line through
  \<open>(x0, y0)\<close> and \<open>(x1, y1)\<close>.
\<close>

definition spec_linear :: "real \<Rightarrow> real \<Rightarrow> real \<Rightarrow> real \<Rightarrow> real \<Rightarrow> real" where
  "spec_linear x0 y0 x1 y1 x = y0 + (x - x0) * (y1 - y0) / (x1 - x0)"

section \<open>Example data\<close>

text \<open>
  The tables of package \<open>unicode\<close> on the runes of the examples: ASCII, the letters
  U+C9 and U+E9 (upper and lower case of one letter) and the CJK letters U+65E5, U+672C and
  U+8A9E. The tokens of a title depend on the tables only at the runes of the title and of
  its lowercase form.
\<close>

definition exampleTables :: Unicode where
  "exampleTables =
     \<lparr>IsLetter = (\<lambda>r. (65 \<le> r \<and> r \<le> 90) \<or> (97 \<le> r \<and> r \<le> 122)
                        \<or> r \<in> set [201, 233, 26085, 26412, 35486]),
      IsDigit = (\<lambda>r. 48 \<le> r \<and> r \<le> 57),
      ToLower = (\<lambda>r. if 65 \<le> r \<and> r \<le> 90 then r + 32 else if r = 201 then 233 else r)\<rparr>"

text \<open>
  An in-memory implementation of \<open>store.Store\<close> for the examples: the items it lists,
  the snapshot table (queried as \<open>SQLiteStore.GetSnapshots\<close> does), the trends written so
  far, and switches that make an operation fail.
\<close>

record Mem =
  m_items :: "Item list"
  m_db :: DB
  m_trends :: "Trend list"
  m_failList :: bool
  m_failClear :: bool
  m_failUpsert :: bool

definition memStore :: "Mem Store" where
  "memStore =
     \<lparr>ListItems = (\<lambda>s opts. if m_failList s then Inl (Failure ''list items'')
                                else Inr (take (nat (lo_Limit opts)) (m_items s))),
      GetSnapshots = (\<lambda>s. SQLiteStore_GetSnapshots (m_db s)),
      ClearTrends = (\<lambda>s. if m_failClear s then (s, Some (Failure ''delete from trends''))
                           else (s\<lparr>m_trends := []\<rparr>, None)),
      UpsertTrend = (\<lambda>s t. if m_failUpsert s then (s, Inl (Wrapped ''insert trend'' (Failure ''disk'')))
                             else (let t' = t\<lparr>t_ID := int (length (m_trends s)) + 1\<rparr>
                                   in (s\<lparr>m_trends := m_trends s @ [t']\<rparr>, Inr t')))\<rparr>"

definition it1 :: Item where
  "it1 = \<lparr>i_ID = ''hackernews:1'', i_Source = ''hackernews'', i_Title = runes ''OpenAI releases GPT-5'',
          i_URL = [], i_Description = [], i_Score = 200\<rparr>"

definition it2 :: Item where
  "it2 = \<lparr>i_ID = ''reddit:2'', i_Source = ''reddit'', i_Title = runes ''GPT-5 launched by OpenAI'',
          i_URL = [], i_Description = [], i_Score = 150\<rparr>"

definition it3 :: Item where
  "it3 = \<lparr>i_ID = ''rss:3'', i_Source = ''rss'', i_Title = runes ''Weather forecast for Tuesday'',
          i_URL = [], i_Description = [], i_Score = 0\<rparr>"

definition T0 :: time where
  "T0 = 1000 * hour"

text \<open>
  Within the last six hours before \<open>T0\<close>, the score of \<open>it1\<close> rises from 10 to 50 in two
  hours and the score of \<open>it2\<close> falls from 50 to 10 in two hours.
\<close>

definition snaps0 :: "Snapshot list" where
  "snaps0 =
    [\<lparr>s_ID = 1, s_ItemID = ''hackernews:1'', s_Score = 10, s_Comments = 0, s_CheckedAt = T0 - 3 * hour\<rparr>,
     \<lparr>s_ID = 2, s_ItemID = ''reddit:2'', s_Score = 50, s_Comments = 0, s_CheckedAt = T0 - 3 * hour\<rparr>,
     \<lparr>s_ID = 3, s_ItemID = ''hackernews:1'', s_Score = 50, s_Comments = 0, s_CheckedAt = T0 - 1 * hour\<rparr>,
     \<lparr>s_ID = 4, s_ItemID = ''reddit:2'', s_Score = 10, s_Comments = 0, s_CheckedAt = T0 - 1 * hour\<rparr>,
     \<lparr>s_ID = 5, s_ItemID = ''rss:3'', s_Score = 0, s_Comments = 0, s_CheckedAt = T0 - 1 * hour\<rparr>]"

definition db0 :: DB where
  "db0 = \<lparr>score_snapshots = snaps0, db_failure = None\<rparr>"

definition mem0 :: Mem where
  "mem0 = \<lparr>m_items = [it1, it2, it3], m_db = db0,
            m_trends = [], m_failList = False, m_failClear = False, m_failUpsert = False\<rparr>"

definition eng0 :: "Mem Engine" where
  "eng0 = NewEngine memStore 0.3 0.5 0.2 None"

text \<open>A cluster whose only item has a declining score.\<close>

definition declining :: TopicCluster where
  "declining = \<lparr>c_Topic = i_Title it2, c_Items = [it2], c_Sources = [''reddit''],
                c_TotalScore = 150, c_MaxVelocity = 0\<rparr>"

text \<open>A cluster of \<open>n\<close> copies of \<open>it3\<close> with the given total score.\<close>

definition sized :: "nat \<Rightarrow> int \<Rightarrow> TopicCluster" where
  "sized n tot = \<lparr>c_Topic = [], c_Items = replicate n it3, c_Sources = [''rss''],
                    c_TotalScore = tot, c_MaxVelocity = 0\<rparr>"






text \<open>Stores in which nothing is listed, or in which one operation fails.\<close>

definition memEmpty :: Mem where
  "memEmpty = mem0\<lparr>m_items := []\<rparr>"

definition memListFail :: Mem where
  "memListFail = mem0\<lparr>m_failList := True\<rparr>"

definition memClearFail :: Mem where
  "memClearFail = mem0\<lparr>m_failClear := True\<rparr>"

definition memSnapFail :: Mem where
  "memSnapFail = mem0\<lparr>m_db := db0\<lparr>db_failure := Some (Failure ''disk I/O error'')\<rparr>\<rparr>"

definition memUpsertFail :: Mem where
  "memUpsertFail = mem0\<lparr>m_failUpsert := True\<rparr>"

text \<open>
  An engine whose evaluator always receives the given reply from its provider, and a
  reply that scores every item below the minimum score of 6.
\<close>

definition evWith :: "string \<Rightarrow> http_reply \<Rightarrow> LLMEvaluator" where
  "evWith prov reply = NewLLMEvaluator (\<lambda>items. reply) prov [] ''key'' [] 0"

definition engWith :: "string \<Rightarrow> http_reply \<Rightarrow> Mem Engine" where
  "engWith prov reply = NewEngine memStore 0.3 0.5 0.2 (Some (evWith prov reply))"

definition lowScores :: http_reply where
  "lowScores = Response 200 (Some [Results
     [\<lparr>r_ID = ''hackernews:1'', r_Score = 5, r_Reason = ''incremental'', r_Topic = runes ''GPT-5 Release''\<rparr>,
      \<lparr>r_ID = ''reddit:2'', r_Score = 4, r_Reason = ''duplicate'', r_Topic = runes ''GPT-5 Release''\<rparr>,
      \<lparr>r_ID = ''rss:3'', r_Score = 0, r_Reason = ''not about AI'', r_Topic = runes ''Weather''\<rparr>]])"

section \<open>Properties of the tokenizer\<close>

lemma spec_run_no_sep:
  assumes "\<forall>r \<in> set t. \<not> sep r"
  shows "spec_run sep t w = (t \<noteq> [] \<and> w = t)"
proof
  assume "spec_run sep t w"
  then obtain pre suf where d: "t = pre @ w @ suf" "w \<noteq> []"
      "pre = [] \<or> sep (last pre)" "suf = [] \<or> sep (hd suf)"
    unfolding spec_run_def by blast
  have "pre = []"
  proof (rule ccontr)
    assume "pre \<noteq> []"
    then have "last pre \<in> set t" "sep (last pre)" using d by auto
    then show False using assms by blast
  qed
  moreover have "suf = []"
  proof (rule ccontr)
    assume "suf \<noteq> []"
    then have "hd suf \<in> set t" "sep (hd suf)" using d by auto
    then show False using assms by blast
  qed
  ultimately show "t \<noteq> [] \<and> w = t" using d by simp
next
  assume "t \<noteq> [] \<and> w = t"
  then show "spec_run sep t w"
    unfolding spec_run_def using assms by (intro exI [of _ "[]"]) simp
qed

lemma spec_run_split:
  assumes c: "sep c"
  shows "spec_run sep (a @ c # b) w = (spec_run sep a w \<or> spec_run sep b w)"
proof
  assume "spec_run sep (a @ c # b) w"
  then obtain pre suf where d: "a @ c # b = pre @ w @ suf" "w \<noteq> []" "\<forall>r \<in> set w. \<not> sep r"
      "pre = [] \<or> sep (last pre)" "suf = [] \<or> sep (hd suf)"
    unfolding spec_run_def by blast
  have cw: "c \<notin> set w" using d(3) c by blast
  from d(1) obtain us where "(a = pre @ us \<and> us @ c # b = w @ suf) \<or> (a @ us = pre \<and> c # b = us @ w @ suf)"
    by (auto simp: append_eq_append_conv2)
  then show "spec_run sep a w \<or> spec_run sep b w"
  proof
    assume h: "a = pre @ us \<and> us @ c # b = w @ suf"
    then obtain vs where "(us = w @ vs \<and> vs @ c # b = suf) \<or> (us @ vs = w \<and> c # b = vs @ suf)"
      by (auto simp: append_eq_append_conv2)
    then show ?thesis
    proof
      assume k: "us = w @ vs \<and> vs @ c # b = suf"
      have "vs = [] \<or> sep (hd vs)" using k d(5) by (cases vs) auto
      then have "spec_run sep a w"
        unfolding spec_run_def using h k d(2,3,4) by (intro exI [of _ pre] exI [of _ vs]) simp
      then show ?thesis ..
    next
      assume k: "us @ vs = w \<and> c # b = vs @ suf"
      have "vs = []"
      proof (rule ccontr)
        assume "vs \<noteq> []"
        then have "hd vs = c" using k by (cases vs) auto
        then have "c \<in> set w" using k \<open>vs \<noteq> []\<close> by (cases vs) auto
        then show False using cw by simp
      qed
      then have "a = pre @ w @ []" using h k by simp
      then have "spec_run sep a w"
        unfolding spec_run_def using d(2,3,4) by (intro exI [of _ pre] exI [of _ "[]"]) simp
      then show ?thesis ..
    qed
  next
    assume h: "a @ us = pre \<and> c # b = us @ w @ suf"
    have "us \<noteq> []"
    proof
      assume "us = []"
      then have "c # b = w @ suf" using h by simp
      then have "c \<in> set w" using d(2) by (cases w) auto
      then show False using cw by simp
    qed
    then obtain us' where us: "us = c # us'" using h by (cases us) auto
    then have b: "b = us' @ w @ suf" using h by simp
    have "us' = [] \<or> sep (last us')"
    proof (cases "us' = []")
      case False
      then have "last pre = last us'" using h us by auto
      moreover have "pre \<noteq> []" using h us by auto
      ultimately show ?thesis using d(4) by simp
    qed simp
    then have "spec_run sep b w"
      unfolding spec_run_def using b d(2,3,5) by (intro exI [of _ us'] exI [of _ suf]) simp
    then show ?thesis ..
  qed
next
  assume "spec_run sep a w \<or> spec_run sep b w"
  then show "spec_run sep (a @ c # b) w"
  proof
    assume "spec_run sep a w"
    then obtain pre suf where d: "a = pre @ w @ suf" "w \<noteq> []" "\<forall>r \<in> set w. \<not> sep r"
        "pre = [] \<or> sep (last pre)" "suf = [] \<or> sep (hd suf)"
      unfolding spec_run_def by blast
    have "sep (hd (suf @ c # b))" using d(5) c by (cases suf) auto
    then show ?thesis
      unfolding spec_run_def using d(1,2,3,4)
      by (intro exI [of _ pre] exI [of _ "suf @ c # b"]) simp
  next
    assume "spec_run sep b w"
    then obtain pre suf where d: "b = pre @ w @ suf" "w \<noteq> []" "\<forall>r \<in> set w. \<not> sep r"
        "pre = [] \<or> sep (last pre)" "suf = [] \<or> sep (hd suf)"
      unfolding spec_run_def by blast
    have "sep (last (a @ c # pre))" using d(4) c by (cases "pre = []") auto
    then show ?thesis
      unfolding spec_run_def using d(1,2,3,5)
      by (intro exI [of _ "a @ c # pre"] exI [of _ suf]) simp
  qed
qed

lemma fieldsFunc_runs:
  "\<forall>r \<in> set cur. \<not> sep r \<Longrightarrow>
   set (fieldsFunc sep cur cs) = {w. spec_run sep (rev cur @ cs) w}"
proof (induction cs arbitrary: cur)
  case Nil
  have "\<forall>r \<in> set (rev cur). \<not> sep r" using Nil by simp
  then show ?case using spec_run_no_sep [of "rev cur" sep] by auto
next
  case (Cons c cs)
  show ?case
  proof (cases "sep c")
    case True
    have a: "\<forall>r \<in> set (rev cur). \<not> sep r" using Cons.prems by simp
    have "set (fieldsFunc sep [] cs) = {w. spec_run sep cs w}"
      using Cons.IH [of "[]"] by simp
    then show ?thesis
      using True spec_run_split [of sep c "rev cur" cs] spec_run_no_sep [of "rev cur" sep] a by auto
  next
    case False
    have "\<forall>r \<in> set (c # cur). \<not> sep r" using Cons.prems False by simp
    from Cons.IH [OF this] show ?thesis using False by simp
  qed
qed

lemma fieldsFunc_cong:
  "\<forall>c \<in> set cs. sep c = sep' c \<Longrightarrow> fieldsFunc sep cur cs = fieldsFunc sep' cur cs"
  by (induction cs arbitrary: cur) auto

lemma set_significantTokens: "set (significantTokens u title) = spec_tokens u title"
proof -
  have s: "(\<lambda>r. \<not> IsLetter u r \<and> \<not> IsDigit u r) = (\<lambda>r. \<not> (IsLetter u r \<or> IsDigit u r))"
    by auto
  have "set (fieldsFunc (\<lambda>r. \<not> (IsLetter u r \<or> IsDigit u r)) [] (map (ToLower u) title))
      = {w. spec_run (\<lambda>r. \<not> (IsLetter u r \<or> IsDigit u r)) (map (ToLower u) title) w}"
    using fieldsFunc_runs [of "[]" "\<lambda>r. \<not> (IsLetter u r \<or> IsDigit u r)" "map (ToLower u) title"]
    by simp
  then show ?thesis
    unfolding significantTokens_def spec_tokens_def Let_def s by auto
qed

lemma significantTokens_agree:
  assumes "\<forall>r \<in> set title. ToLower u r = ToLower u' r"
    and "\<forall>r \<in> set (map (ToLower u) title). IsLetter u r = IsLetter u' r \<and> IsDigit u r = IsDigit u' r"
  shows "significantTokens u title = significantTokens u' title"
proof -
  have m: "map (ToLower u) title = map (ToLower u') title"
    using assms(1) by simp
  have "fieldsFunc (\<lambda>r. \<not> IsLetter u r \<and> \<not> IsDigit u r) [] (map (ToLower u) title)
      = fieldsFunc (\<lambda>r. \<not> IsLetter u' r \<and> \<not> IsDigit u' r) [] (map (ToLower u) title)"
    using assms(2) by (intro fieldsFunc_cong) simp
  then show ?thesis
    unfolding significantTokens_def Let_def m [symmetric] by simp
qed

section \<open>Properties of the similarity\<close>

lemma intersection_card:
  "length (filter (\<lambda>t. t \<in> set (remdups b)) (remdups a)) = card (set a \<inter> set b)"
proof -
  have "distinct (filter (\<lambda>t. t \<in> set (remdups b)) (remdups a))"
    by simp
  then have "length (filter (\<lambda>t. t \<in> set (remdups b)) (remdups a))
      = card (set (filter (\<lambda>t. t \<in> set (remdups b)) (remdups a)))"
    by (simp only: distinct_card)
  also have "set (filter (\<lambda>t. t \<in> set (remdups b)) (remdups a)) = set a \<inter> set b"
    by auto
  finally show ?thesis .
qed

lemma jaccard_sets:
  "jaccardSimilarity a b =
     (if a = [] \<or> b = [] then 0
      else real (card (set a \<inter> set b)) / real (card (set a \<union> set b)))"
proof (cases "a = [] \<or> b = []")
  case True
  then show ?thesis unfolding jaccardSimilarity_def by auto
next
  case False
  have u: "card (set a \<union> set b) + card (set a \<inter> set b) = card (set a) + card (set b)"
    by (rule card_Un_Int [symmetric]) simp_all
  have pos: "0 < card (set a \<union> set b)"
    using False by (cases a) (auto simp: card_gt_0_iff)
  have la: "length (remdups a) = card (set a)" and lb: "length (remdups b) = card (set b)"
    by (simp_all add: length_remdups_card_conv)
  have us: "int (length (remdups a)) + int (length (remdups b))
        - int (length (filter (\<lambda>t. t \<in> set (remdups b)) (remdups a)))
      = int (card (set a \<union> set b))"
    unfolding la lb intersection_card using u by linarith
  have ne: "length a \<noteq> 0" "length b \<noteq> 0" using False by auto
  have "jaccardSimilarity a b =
      real_of_int (int (card (set a \<inter> set b))) / real_of_int (int (card (set a \<union> set b)))"
    unfolding jaccardSimilarity_def Let_def us
    using ne pos by (simp only: intersection_card if_False simp_thms of_nat_eq_0_iff) simp
  then show ?thesis using False by simp
qed

lemma jaccard_spec: "jaccardSimilarity a b = spec_jaccard (set a) (set b)"
  by (simp add: jaccard_sets spec_jaccard_def)

lemma spec_similar_code:
  "((i, j) \<in> spec_similar u items) =
     (i < length items \<and> j < length items
      \<and> jaccardSimilarity (significantTokens u (i_Title (items ! i)))
                           (significantTokens u (i_Title (items ! j))) \<ge> 0.3)"
  by (simp add: spec_similar_def jaccard_spec set_significantTokens)

text \<open>
  C9. The Jaccard similarity is symmetric in its two token lists, it is 0 as soon as one of
  them is empty, and it is exactly 1 for two non-empty token lists that hold the same set
  of tokens (in particular for a non-empty list and itself).
\<close>

theorem jaccard_symmetric_empty_identical:
  "jaccardSimilarity a b = jaccardSimilarity b a
   \<and> jaccardSimilarity [] b = 0 \<and> jaccardSimilarity a [] = 0
   \<and> (a \<noteq> [] \<and> set a = set b \<longrightarrow> jaccardSimilarity a b = 1)
   \<and> (a \<noteq> [] \<longrightarrow> jaccardSimilarity a a = 1)"
proof -
  have sym: "jaccardSimilarity a b = jaccardSimilarity b a"
    by (simp add: jaccard_sets Int_commute Un_commute disj_commute)
  have e1: "jaccardSimilarity [] b = 0" and e2: "jaccardSimilarity a [] = 0"
    by (simp_all add: jaccard_sets)
  have one: "jaccardSimilarity x y = 1" if "x \<noteq> []" "set x = set y" for x y
  proof -
    from that have "y \<noteq> []" by auto
    moreover have "0 < card (set x)"
      using that(1) by (cases x) (auto simp: card_gt_0_iff)
    ultimately show ?thesis
      using that by (simp add: jaccard_sets)
  qed
  show ?thesis
    using sym e1 e2 one [of a b] one [of a a] by simp
qed

theorem jaccard_symmetric_empty_identical_witness:
  "[''gpt'', ''openai''] \<noteq> [] \<and> set [''gpt'', ''openai''] = set [''openai'', ''gpt'', ''gpt'']
   \<and> jaccardSimilarity [''gpt'', ''openai''] [''openai'', ''gpt'', ''gpt''] = 1
   \<and> jaccardSimilarity [''gpt'', ''openai''] [''gpt'', ''openai''] = 1"
proof -
  have s: "set [''gpt'', ''openai''] = set [''openai'', ''gpt'', ''gpt'']"
    by auto
  show ?thesis
    using s jaccard_symmetric_empty_identical
      [of "[''gpt'', ''openai'']" "[''openai'', ''gpt'', ''gpt'']"]
    by simp
qed

section \<open>Properties of the scoring\<close>

lemma fold_max_velocity:
  "fold (\<lambda>item acc. let v = f item in if v > acc then v else acc) xs (a::real)
     = Max (insert a (f ` set xs))"
proof (induction xs arbitrary: a)
  case Nil
  then show ?case by simp
next
  case (Cons x xs)
  have "Max (insert (max (f x) a) (f ` set xs)) = Max (insert a (insert (f x) (f ` set xs)))"
  proof (cases "set xs = {}")
    case True
    then show ?thesis by (simp add: max.commute)
  next
    case False
    then have ne: "f ` set xs \<noteq> {}" by simp
    have fin: "finite (f ` set xs)" by simp
    show ?thesis
      using ne fin by (simp add: Max_insert max.assoc max.commute max.left_commute)
  qed
  moreover have "(if f x > a then f x else a) = max (f x) a"
    by (simp add: max_def)
  ultimately show ?case
    using Cons.IH [of "max (f x) a"] by (simp add: Let_def)
qed

lemma velocityScore_eq:
  "velocityScore e s now c = min 100 (Max (insert 0 (itemVelocity e s now ` set (c_Items c))))"
  unfolding velocityScore_def fold_max_velocity by (simp add: Let_def min_def)

lemma velocityScore_bounds: "0 \<le> velocityScore e s now c \<and> velocityScore e s now c \<le> 100"
proof -
  have "0 \<le> Max (insert 0 (itemVelocity e s now ` set (c_Items c)))"
    by (rule Max_ge) simp_all
  then show ?thesis unfolding velocityScore_eq by simp
qed

lemma crossScore_bounds: "0 \<le> crossScore c \<and> crossScore c \<le> 100"
  by (simp add: crossScore_def Let_def)

lemma absoluteScore_bounds: "0 \<le> absoluteScore c \<and> absoluteScore c \<le> 100"
proof (cases "c_TotalScore c > 0 \<and> length (c_Items c) \<noteq> 0")
  case False
  then show ?thesis by (auto simp: absoluteScore_def)
next
  case True
  define avg where "avg = real_of_int (c_TotalScore c) / real (length (c_Items c))"
  have pos: "0 < avg" using True by (simp add: avg_def)
  have "absoluteScore c = (if avg > 1000 then 100
             else if avg > 100 then 60 + (avg - 100) / 900 * 40
             else if avg > 10 then 20 + (avg - 10) / 90 * 40
             else avg / 10 * 20)"
    using True by (simp add: absoluteScore_def Let_def avg_def)
  then show ?thesis using pos by (auto simp: field_simps)
qed

text \<open>
  C3, as the code has it. The velocity component is the largest of 0 and the velocities of
  the items of the cluster, cut at 100: the running maximum starts at \<open>0.0\<close>, so a
  cluster whose items all have a negative velocity contributes 0, not its negative
  maximum.
\<close>

theorem velocity_component_floor:
  "velocityScore e s now c = min 100 (Max (insert 0 (itemVelocity e s now ` set (c_Items c))))
   \<and> 0 \<le> velocityScore e s now c"
  using velocityScore_bounds [of e s now c] by (simp add: velocityScore_eq)

text \<open>
  The claim that a negative maximum passes through fails on the cluster \<open>declining\<close>:
  its only item loses 20 points per hour, and the component is 0.
\<close>

theorem velocity_component_counterexample:
  "itemVelocity eng0 mem0 T0 it2 = - 20 \<and> c_Items declining = [it2]
   \<and> velocityScore eng0 mem0 T0 declining = 0"
  by code_simp

text \<open>
  C10. With the default weights 0.5, 0.3 and 0.2, which \<open>NewEngine\<close> also substitutes
  when the three configured weights sum to zero, the composite score of any cluster lies
  between 0 and 100; it is never negative, whatever the velocities of the items.
\<close>

theorem scoreCluster_bounds:
  assumes "vw + cw + aw = 0 \<or> (vw = 0.3 \<and> cw = 0.5 \<and> aw = 0.2)"
  shows "0 \<le> scoreCluster (NewEngine st vw cw aw l) s now c
       \<and> scoreCluster (NewEngine st vw cw aw l) s now c \<le> 100"
proof -
  let ?e = "NewEngine st vw cw aw l"
  have w: "velocityWeight ?e = 0.3 \<and> crossSourceWeight ?e = 0.5 \<and> absoluteWeight ?e = 0.2"
    using assms by (auto simp: NewEngine_def)
  have sc: "scoreCluster ?e s now c
      = crossScore c * 0.5 + velocityScore ?e s now c * 0.3 + absoluteScore c * 0.2"
    by (simp add: scoreCluster_def w)
  show ?thesis
    unfolding sc
    using crossScore_bounds [of c] velocityScore_bounds [of ?e s now c] absoluteScore_bounds [of c]
    by linarith
qed

theorem scoreCluster_bounds_witness:
  "(0::real) + 0 + 0 = 0
   \<and> 0 \<le> scoreCluster (NewEngine memStore 0 0 0 None) mem0 T0 declining
   \<and> scoreCluster (NewEngine memStore 0 0 0 None) mem0 T0 declining \<le> 100
   \<and> 0 \<le> scoreCluster (NewEngine memStore 0.3 0.5 0.2 None) mem0 T0 declining
   \<and> scoreCluster (NewEngine memStore 0.3 0.5 0.2 None) mem0 T0 declining \<le> 100"
proof -
  have z: "(0::real) + 0 + 0 = 0 \<or> ((0::real) = 0.3 \<and> (0::real) = 0.5 \<and> (0::real) = 0.2)"
    by simp
  have d: "(0.3::real) + 0.5 + 0.2 = 0 \<or> ((0.3::real) = 0.3 \<and> (0.5::real) = 0.5 \<and> (0.2::real) = 0.2)"
    by simp
  show ?thesis
    using scoreCluster_bounds [OF z, of memStore None mem0 T0 declining]
      scoreCluster_bounds [OF d, of memStore None mem0 T0 declining]
    by simp
qed

lemma absoluteScore_mean:
  assumes "c_Items c \<noteq> []"
  shows "absoluteScore c =
     (let mean = real_of_int (c_TotalScore c) / real (length (c_Items c))
      in if mean > 1000 then 100
         else if mean > 100 then 60 + (mean - 100) / 900 * 40
         else if mean > 10 then 20 + (mean - 10) / 90 * 40
         else if mean > 0 then mean / 10 * 20
         else 0)"
proof -
  have n: "0 < real (length (c_Items c))" using assms by simp
  have "(c_TotalScore c > 0) = (real_of_int (c_TotalScore c) / real (length (c_Items c)) > 0)"
    using n by (simp add: zero_less_divide_iff)
  then show ?thesis
    using assms by (auto simp: absoluteScore_def Let_def)
qed

text \<open>
  C5. For a cluster with at least one item, the absolute component is read off the mean
  raw score (total score over item count): 0 at mean 0, the line from 0 to 20 on (0, 10],
  the line from 20 to 60 on (10, 100], the line from 60 to 100 on (100, 1000], and 100
  above 1000; a mean of 100 gives 60 and a mean of 1000 gives 100.
\<close>

theorem absoluteScore_piecewise:
  assumes "c_Items c \<noteq> []"
  shows "let mean = real_of_int (c_TotalScore c) / real (length (c_Items c)) in
     (mean = 0 \<longrightarrow> absoluteScore c = 0)
   \<and> (0 < mean \<and> mean \<le> 10 \<longrightarrow> absoluteScore c = spec_linear 0 0 10 20 mean)
   \<and> (10 < mean \<and> mean \<le> 100 \<longrightarrow> absoluteScore c = spec_linear 10 20 100 60 mean)
   \<and> (100 < mean \<and> mean \<le> 1000 \<longrightarrow> absoluteScore c = spec_linear 100 60 1000 100 mean)
   \<and> (1000 < mean \<longrightarrow> absoluteScore c = 100)
   \<and> (mean = 100 \<longrightarrow> absoluteScore c = 60)
   \<and> (mean = 1000 \<longrightarrow> absoluteScore c = 100)"
  unfolding absoluteScore_mean [OF assms] Let_def spec_linear_def
  by (auto simp: field_simps)

theorem absoluteScore_piecewise_witness:
  "c_Items (sized 2 0) \<noteq> [] \<and> absoluteScore (sized 2 0) = 0
   \<and> absoluteScore (sized 2 10) = spec_linear 0 0 10 20 5
   \<and> absoluteScore (sized 2 110) = spec_linear 10 20 100 60 55
   \<and> absoluteScore (sized 2 1100) = spec_linear 100 60 1000 100 550
   \<and> absoluteScore (sized 2 4000) = 100
   \<and> absoluteScore (sized 2 200) = 60
   \<and> absoluteScore (sized 2 2000) = 100"
proof -
  have ne: "c_Items (sized 2 t) \<noteq> []" for t
    by (simp add: sized_def)
  have m: "real_of_int (c_TotalScore (sized 2 t)) / real (length (c_Items (sized 2 t))) = real_of_int t / 2" for t
    by (simp add: sized_def)
  show ?thesis
    using absoluteScore_piecewise [OF ne, of 0] absoluteScore_piecewise [OF ne, of 10]
      absoluteScore_piecewise [OF ne, of 110] absoluteScore_piecewise [OF ne, of 1100]
      absoluteScore_piecewise [OF ne, of 4000] absoluteScore_piecewise [OF ne, of 200]
      absoluteScore_piecewise [OF ne, of 2000] ne [of 0]
    unfolding m Let_def by simp
qed

lemma sorted_nth_bounds:
  assumes "sorted (map f xs)" "x \<in> set xs"
  shows "f (xs ! 0) \<le> f x \<and> f x \<le> f (xs ! (length xs - 1))"
proof -
  from assms(2) obtain i where i: "i < length xs" "xs ! i = x"
    by (auto simp: in_set_conv_nth)
  have "map f xs ! 0 \<le> map f xs ! i"
    using assms(1) i(1) by (intro sorted_nth_mono) simp_all
  moreover have "map f xs ! i \<le> map f xs ! (length xs - 1)"
    using assms(1) i(1) by (intro sorted_nth_mono) simp_all
  moreover have "0 < length xs" using i(1) by (cases xs) auto
  ultimately show ?thesis using i by (simp add: nth_map)
qed

text \<open>
  C4. With the snapshots read as \<open>SQLiteStore.GetSnapshots\<close> reads them from a working
  database, let \<open>W\<close> be the snapshots of the item taken within the last six hours. With
  fewer than two snapshots in \<open>W\<close> the velocity is 0. Otherwise there are an earliest and
  a latest snapshot in \<open>W\<close>, the velocity is 0 when they are less than 0.1 hours apart,
  and else it is the difference of their scores (latest minus earliest) divided by the
  hours between them; nothing floors a negative quotient.
\<close>

theorem itemVelocity_window:
  assumes "GetSnapshots (store e) s = SQLiteStore_GetSnapshots db" and "db_failure db = None"
  shows "let W = filter (\<lambda>r. s_ItemID r = i_ID item \<and> s_CheckedAt r \<ge> now - 6 * 3600000000000)
                   (score_snapshots db)
     in (length W < 2 \<longrightarrow> itemVelocity e s now item = 0)
      \<and> (length W \<ge> 2 \<longrightarrow>
           (\<exists>first lst. first \<in> set W \<and> lst \<in> set W
              \<and> (\<forall>r \<in> set W. s_CheckedAt first \<le> s_CheckedAt r \<and> s_CheckedAt r \<le> s_CheckedAt lst)
              \<and> itemVelocity e s now item =
                  (let hours = real_of_int (s_CheckedAt lst - s_CheckedAt first) / 3600000000000
                   in if hours < 0.1 then 0
                      else real_of_int (s_Score lst - s_Score first) / hours)))"
proof -
  define W where "W = filter (\<lambda>r. s_ItemID r = i_ID item \<and> s_CheckedAt r \<ge> now - 6 * 3600000000000)
                   (score_snapshots db)"
  define S where "S = sort_key s_CheckedAt W"
  have get: "GetSnapshots (store e) s (i_ID item) (now - 6 * hour) = Inr S"
    using assms by (simp add: SQLiteStore_GetSnapshots_def S_def W_def hour_def)
  have hr: "real_of_int hour = 3600000000000" by (simp add: hour_def)
  have len: "length S = length W" by (simp add: S_def)
  have set: "set S = set W" by (simp add: S_def)
  have srt: "sorted (map s_CheckedAt S)" by (simp add: S_def)
  have small: "itemVelocity e s now item = 0" if "length W < 2"
    using that by (simp add: itemVelocity_def get len)
  have big: "\<exists>first lst. first \<in> set W \<and> lst \<in> set W
              \<and> (\<forall>r \<in> set W. s_CheckedAt first \<le> s_CheckedAt r \<and> s_CheckedAt r \<le> s_CheckedAt lst)
              \<and> itemVelocity e s now item =
                  (let hours = real_of_int (s_CheckedAt lst - s_CheckedAt first) / 3600000000000
                   in if hours < 0.1 then 0
                      else real_of_int (s_Score lst - s_Score first) / hours)"
    if "length W \<ge> 2"
  proof -
    have l2: "\<not> length S < 2" "0 < length S" using that len by linarith+
    have m1: "S ! 0 \<in> set W" and m2: "S ! (length S - 1) \<in> set W"
      using l2 set by (metis nth_mem, metis diff_less nth_mem zero_less_one)
    have bnd: "\<forall>r \<in> set W. s_CheckedAt (S ! 0) \<le> s_CheckedAt r
          \<and> s_CheckedAt r \<le> s_CheckedAt (S ! (length S - 1))"
      using sorted_nth_bounds [OF srt] set by blast
    have val: "itemVelocity e s now item =
        (let hours = real_of_int (s_CheckedAt (S ! (length S - 1)) - s_CheckedAt (S ! 0)) / 3600000000000
         in if hours < 0.1 then 0
            else real_of_int (s_Score (S ! (length S - 1)) - s_Score (S ! 0)) / hours)"
      using l2 by (simp add: itemVelocity_def get Let_def hr)
    show ?thesis using m1 m2 bnd val by blast
  qed
  show ?thesis
    unfolding Let_def using small [unfolded W_def] big [unfolded W_def Let_def] by blast
qed

theorem itemVelocity_window_witness:
  "GetSnapshots (store eng0) mem0 = SQLiteStore_GetSnapshots db0 \<and> db_failure db0 = None
   \<and> itemVelocity eng0 mem0 T0 it1 = 20 \<and> itemVelocity eng0 mem0 T0 it2 = - 20
   \<and> itemVelocity eng0 mem0 T0 it3 = 0
   \<and> (let W = filter (\<lambda>r. s_ItemID r = i_ID it2 \<and> s_CheckedAt r \<ge> T0 - 6 * 3600000000000)
                   (score_snapshots db0)
     in (length W < 2 \<longrightarrow> itemVelocity eng0 mem0 T0 it2 = 0)
      \<and> (length W \<ge> 2 \<longrightarrow>
           (\<exists>first lst. first \<in> set W \<and> lst \<in> set W
              \<and> (\<forall>r \<in> set W. s_CheckedAt first \<le> s_CheckedAt r \<and> s_CheckedAt r \<le> s_CheckedAt lst)
              \<and> itemVelocity eng0 mem0 T0 it2 =
                  (let hours = real_of_int (s_CheckedAt lst - s_CheckedAt first) / 3600000000000
                   in if hours < 0.1 then 0
                      else real_of_int (s_Score lst - s_Score first) / hours))))"
proof -
  have h1: "GetSnapshots (store eng0) mem0 = SQLiteStore_GetSnapshots db0"
    by (simp add: eng0_def NewEngine_def memStore_def mem0_def)
  have h2: "db_failure db0 = None"
    by (simp add: db0_def)
  have v: "itemVelocity eng0 mem0 T0 it1 = 20" "itemVelocity eng0 mem0 T0 it2 = - 20"
      "itemVelocity eng0 mem0 T0 it3 = 0"
    by code_simp+
  show ?thesis
    using itemVelocity_window [OF h1 h2, of it2 T0] h1 h2 v by blast
qed

section \<open>Properties of the clustering\<close>

lemma root_of_bound: "root_of l x r \<Longrightarrow> x < length l \<and> r < length l \<and> l ! r = r"
  by (induction rule: root_of.induct) auto

lemma root_of_det: "root_of l x r \<Longrightarrow> root_of l x r' \<Longrightarrow> r = r'"
proof (induction arbitrary: r' rule: root_of.induct)
  case (here x)
  from here.prems show ?case
  proof (cases rule: root_of.cases)
    case here
    then show ?thesis by simp
  next
    case up
    with here.hyps show ?thesis by simp
  qed
next
  case (up x r)
  from up.prems show ?case
  proof (cases rule: root_of.cases)
    case here
    with up.hyps show ?thesis by simp
  next
    case up
    then show ?thesis using \<open>\<And>r'. root_of l (l ! x) r' \<Longrightarrow> r = r'\<close> by blast
  qed
qed

lemma compress_keeps_roots:
  assumes xr: "root_of l x r"
  shows "root_of l y s \<Longrightarrow> root_of (l[x := r]) y s"
proof (induction rule: root_of.induct)
  case (here y)
  show ?case
  proof (cases "y = x")
    case True
    have "root_of l x x" using here True by (auto intro: root_of.here)
    then have "r = x" using xr root_of_det by blast
    then show ?thesis using here True by (auto intro: root_of.here)
  next
    case False
    then show ?thesis using here by (auto intro: root_of.here)
  qed
next
  case (up y s)
  show ?case
  proof (cases "y = x")
    case True
    have "root_of l x s" using up.hyps True by (auto intro: root_of.up)
    then have sr: "s = r" using xr root_of_det by blast
    have rb: "r < length l" "l ! r = r" using root_of_bound [OF xr] by simp_all
    have rx: "r \<noteq> x" using rb up.hyps True by auto
    have "root_of (l[x := r]) r r" using rb rx by (auto intro: root_of.here)
    then show ?thesis using up.hyps True sr rx by (auto intro: root_of.up)
  next
    case False
    have "root_of (l[x := r]) (l[x := r] ! y) s" using up.IH False by simp
    then show ?thesis using up.hyps False by (auto intro: root_of.up)
  qed
qed

lemma link_roots:
  assumes px: "px < length l" "l ! px = px" and py: "py < length l" "l ! py = py" and ne: "px \<noteq> py"
  shows "root_of l z s \<Longrightarrow> root_of (l[px := py]) z (if s = px then py else s)"
proof (induction rule: root_of.induct)
  case (here z)
  show ?case
  proof (cases "z = px")
    case True
    have "root_of (l[px := py]) py py" using py ne by (auto intro: root_of.here)
    then have "root_of (l[px := py]) px py"
      using px ne by (auto intro: root_of.up)
    then show ?thesis using True by simp
  next
    case False
    then show ?thesis using here by (auto intro: root_of.here)
  qed
next
  case (up z s)
  have zp: "z \<noteq> px" using up.hyps px by auto
  have "root_of (l[px := py]) (l[px := py] ! z) (if s = px then py else s)"
    using up.IH zp by simp
  then show ?case using up.hyps zp by (auto intro: root_of.up)
qed

lemma roots_iff:
  assumes len: "length l' = length l" and tot: "\<forall>x<length l. \<exists>r. root_of l x r"
    and keep: "\<forall>y s. root_of l y s \<longrightarrow> root_of l' y s"
  shows "root_of l' y s = root_of l y s"
proof
  assume a: "root_of l' y s"
  then have "y < length l" using root_of_bound [OF a] len by simp
  then obtain r where r: "root_of l y r" using tot by blast
  then have "root_of l' y r" using keep by blast
  then have "s = r" using a root_of_det by blast
  then show "root_of l y s" using r by simp
next
  assume "root_of l y s" then show "root_of l' y s" using keep by blast
qed

lemma uf_find_keeps:
  "root_of l x r \<Longrightarrow>
     \<exists>l'. uf_find l x = Some (l', r) \<and> length l' = length l
          \<and> (\<forall>y s. root_of l y s \<longrightarrow> root_of l' y s)"
proof (induction rule: root_of.induct)
  case (here x)
  have "uf_find l x = Some (l, x)"
    using here by (subst uf_find.simps) simp
  then show ?case by blast
next
  case (up x r)
  then obtain l1 where l1: "uf_find l (l ! x) = Some (l1, r)" "length l1 = length l"
      "\<forall>y s. root_of l y s \<longrightarrow> root_of l1 y s"
    by blast
  have f: "uf_find l x = Some (l1[x := r], r)"
    using up.hyps l1(1) by (subst uf_find.simps) simp
  have "root_of l x r" using up.hyps by (auto intro: root_of.up)
  then have xr: "root_of l1 x r" using l1(3) by blast
  have "\<forall>y s. root_of l y s \<longrightarrow> root_of (l1[x := r]) y s"
    using l1(3) compress_keeps_roots [OF xr] by blast
  then show ?case using f l1(2) by simp
qed

lemma uf_find_total:
  assumes tot: "\<forall>x<length l. \<exists>r. root_of l x r" and xr: "root_of l x r"
  shows "\<exists>l'. uf_find l x = Some (l', r) \<and> length l' = length l
          \<and> (\<forall>y s. root_of l' y s = root_of l y s)"
proof -
  from uf_find_keeps [OF xr] obtain l' where l': "uf_find l x = Some (l', r)"
      "length l' = length l" "\<forall>y s. root_of l y s \<longrightarrow> root_of l' y s"
    by blast
  have "\<forall>y s. root_of l' y s = root_of l y s"
    using roots_iff [OF l'(2) tot l'(3)] by blast
  then show ?thesis using l' by blast
qed

lemma forest_inv_roots_cong:
  assumes "forest_inv n E P l" "length l' = length l" "\<forall>y s. root_of l' y s = root_of l y s"
  shows "forest_inv n E P l'"
proof -
  have "root_of l' = root_of l" using assms(3) by (intro ext) simp
  then show ?thesis using assms(1,2) unfolding forest_inv_def by simp
qed

lemma uf_union_inv:
  assumes inv: "forest_inv n E P l" and sym: "sym E"
    and i: "i < n" and j: "j < n" and e: "(i, j) \<in> E"
  shows "\<exists>l'. uf_union l i j = Some l' \<and> forest_inv n E (insert (i, j) P) l'"
proof -
  have len: "length l = n" and tot: "\<forall>x<length l. \<exists>r. root_of l x r"
    using inv by (simp_all add: forest_inv_def)
  obtain px where px: "root_of l i px" using tot i len by blast
  obtain py where py: "root_of l j py" using tot j len by blast
  from uf_find_total [OF tot px] obtain l1 where l1: "uf_find l i = Some (l1, px)"
      "length l1 = length l" "\<forall>y s. root_of l1 y s = root_of l y s"
    by blast
  have tot1: "\<forall>x<length l1. \<exists>r. root_of l1 x r" using tot l1 by simp
  have py1: "root_of l1 j py" using py l1(3) by simp
  from uf_find_total [OF tot1 py1] obtain l2 where l2: "uf_find l1 j = Some (l2, py)"
      "length l2 = length l1" "\<forall>y s. root_of l2 y s = root_of l1 y s"
    by blast
  have same: "\<forall>y s. root_of l2 y s = root_of l y s" using l1(3) l2(3) by simp
  have len2: "length l2 = length l" using l1(2) l2(2) by simp
  have inv2: "forest_inv n E P l2"
    using forest_inv_roots_cong [OF inv len2 same] .
  have un: "uf_union l i j = Some (if px \<noteq> py then l2[px := py] else l2)"
    by (simp add: uf_union_def l1(1) l2(1))
  have px2: "root_of l2 i px" and py2: "root_of l2 j py" using px py same by simp_all
  show ?thesis
  proof (cases "px = py")
    case True
    have "forest_inv n E (insert (i, j) P) l2"
      using inv2 px2 py2 True unfolding forest_inv_def by auto
    then show ?thesis using un True by simp
  next
    case False
    let ?l = "l2[px := py]"
    let ?g = "\<lambda>s. if s = px then py else s"
    have bx: "px < length l2" "l2 ! px = px" using root_of_bound [OF px2] by simp_all
    have by': "py < length l2" "l2 ! py = py" using root_of_bound [OF py2] by simp_all
    have link: "root_of l2 z s \<Longrightarrow> root_of ?l z (?g s)" for z s
      using link_roots [OF bx by' False] by blast
    have tot2: "\<forall>x<n. \<exists>r. root_of l2 x r" using inv2 by (simp add: forest_inv_def)
    have snd2: "\<forall>x r. root_of l2 x r \<longrightarrow> (x, r) \<in> E\<^sup>*" using inv2 by (simp add: forest_inv_def)
    have cmp2: "\<forall>(a, b) \<in> P. \<exists>r. root_of l2 a r \<and> root_of l2 b r"
      using inv2 by (simp add: forest_inv_def)
    have symr: "sym (E\<^sup>*)" using sym by (rule sym_rtrancl)
    have A: "length ?l = n" using len2 len by simp
    have B: "\<forall>x<n. \<exists>r. root_of ?l x r" using tot2 link by blast
    have C: "(x, r) \<in> E\<^sup>*" if xr: "root_of ?l x r" for x r
    proof -
      have "x < n" using root_of_bound [OF xr] A by simp
      then obtain s where s: "root_of l2 x s" using tot2 by blast
      have r: "r = ?g s" using link [OF s] xr root_of_det by blast
      have xs: "(x, s) \<in> E\<^sup>*" using snd2 s by blast
      show ?thesis
      proof (cases "s = px")
        case True
        have "(i, px) \<in> E\<^sup>*" using snd2 px2 by blast
        then have "(px, i) \<in> E\<^sup>*" using symr by (meson symD)
        moreover have "(j, py) \<in> E\<^sup>*" using snd2 py2 by blast
        ultimately have "(px, py) \<in> E\<^sup>*" using e
          by (meson rtrancl.rtrancl_into_rtrancl rtrancl_trans)
        then show ?thesis using xs True r by (auto intro: rtrancl_trans)
      next
        case False
        then show ?thesis using xs r by simp
      qed
    qed
    have D: "\<exists>r. root_of ?l a r \<and> root_of ?l b r" if ab: "(a, b) \<in> insert (i, j) P" for a b
    proof (cases "(a, b) = (i, j)")
      case True
      have "root_of ?l i py" using link [OF px2] by simp
      moreover have "root_of ?l j py" using link [OF py2] False by simp
      ultimately show ?thesis using True by blast
    next
      case False
      then have "(a, b) \<in> P" using ab by blast
      then obtain r where "root_of l2 a r" "root_of l2 b r" using cmp2 by blast
      then show ?thesis using link by blast
    qed
    have "forest_inv n E (insert (i, j) P) ?l"
      unfolding forest_inv_def using A B C D by blast
    then show ?thesis using un False by simp
  qed
qed

lemma compareInner_inv:
  assumes sym: "sym E" and i: "i < n"
    and sim: "\<forall>j<n. (jaccardSimilarity (tokens ! i) (tokens ! j) \<ge> 0.3) = ((i, j) \<in> E)"
  shows "forest_inv n E P l \<Longrightarrow> \<forall>j \<in> set js. j < n \<Longrightarrow>
     \<exists>l'. compareInner tokens i js l = Some l'
          \<and> forest_inv n E (P \<union> {(i, j) | j. j \<in> set js \<and> (i, j) \<in> E}) l'"
proof (induction js arbitrary: l P)
  case Nil
  then show ?case by simp
next
  case (Cons j js)
  have jn: "j < n" using Cons.prems by simp
  show ?case
  proof (cases "(i, j) \<in> E")
    case True
    from uf_union_inv [OF Cons.prems(1) sym i jn True] obtain l1
      where l1: "uf_union l i j = Some l1" "forest_inv n E (insert (i, j) P) l1"
      by blast
    from Cons.IH [OF l1(2)] Cons.prems(2) obtain l' where l': "compareInner tokens i js l1 = Some l'"
        "forest_inv n E (insert (i, j) P \<union> {(i, j) | j. j \<in> set js \<and> (i, j) \<in> E}) l'"
      by auto
    have eq: "insert (i, j) P \<union> {(i, j) | j. j \<in> set js \<and> (i, j) \<in> E}
        = P \<union> {(i, k) | k. k \<in> set (j # js) \<and> (i, k) \<in> E}"
      using True by auto
    have "compareInner tokens i (j # js) l = Some l'"
      using True sim jn l1(1) l'(1) by simp
    then show ?thesis using l'(2) eq by simp
  next
    case False
    from Cons.IH [OF Cons.prems(1)] Cons.prems(2) obtain l' where l': "compareInner tokens i js l = Some l'"
        "forest_inv n E (P \<union> {(i, j) | j. j \<in> set js \<and> (i, j) \<in> E}) l'"
      by auto
    have eq: "P \<union> {(i, j) | j. j \<in> set js \<and> (i, j) \<in> E}
        = P \<union> {(i, k) | k. k \<in> set (j # js) \<and> (i, k) \<in> E}"
      using False by auto
    have "compareInner tokens i (j # js) l = Some l'"
      using False sim jn l'(1) by simp
    then show ?thesis using l'(2) eq by simp
  qed
qed

lemma compareAll_inv:
  assumes sym: "sym E"
    and sim: "\<forall>i<n. \<forall>j<n. (jaccardSimilarity (tokens ! i) (tokens ! j) \<ge> 0.3) = ((i, j) \<in> E)"
  shows "forest_inv n E P l \<Longrightarrow> \<forall>i \<in> set is. i < n \<Longrightarrow>
     \<exists>l'. compareAll tokens n is l = Some l'
          \<and> forest_inv n E (P \<union> {(i, j). i \<in> set is \<and> i < j \<and> j < n \<and> (i, j) \<in> E}) l'"
proof (induction "is" arbitrary: l P)
  case Nil
  then show ?case by simp
next
  case (Cons i "is")
  have i: "i < n" using Cons.prems by simp
  have simi: "\<forall>j<n. (jaccardSimilarity (tokens ! i) (tokens ! j) \<ge> 0.3) = ((i, j) \<in> E)"
    using sim i by blast
  have rng: "\<forall>j \<in> set [i + 1 ..< n]. j < n" by simp
  from compareInner_inv [OF sym i simi Cons.prems(1) rng] obtain l1
    where l1: "compareInner tokens i [i + 1 ..< n] l = Some l1"
      "forest_inv n E (P \<union> {(i, j) | j. j \<in> set [i + 1 ..< n] \<and> (i, j) \<in> E}) l1"
    by blast
  from Cons.IH [OF l1(2)] Cons.prems(2) obtain l' where l': "compareAll tokens n is l1 = Some l'"
      "forest_inv n E (P \<union> {(i, j) | j. j \<in> set [i + 1 ..< n] \<and> (i, j) \<in> E}
          \<union> {(a, j). a \<in> set is \<and> a < j \<and> j < n \<and> (a, j) \<in> E}) l'"
    by auto
  have eq: "P \<union> {(i, j) | j. j \<in> set [i + 1 ..< n] \<and> (i, j) \<in> E}
          \<union> {(a, j). a \<in> set is \<and> a < j \<and> j < n \<and> (a, j) \<in> E}
      = P \<union> {(a, j). a \<in> set (i # is) \<and> a < j \<and> j < n \<and> (a, j) \<in> E}"
    by auto
  have "compareAll tokens n (i # is) l = Some l'"
    using l1(1) l'(1) by simp
  then show ?case using l'(2) eq by simp
qed

lemma forest_inv_init: "forest_inv n E {} [0 ..< n]"
proof -
  have r: "root_of [0 ..< n] x x" if "x < n" for x
    using that by (auto intro: root_of.here)
  have "(x, s) \<in> E\<^sup>*" if xs: "root_of [0 ..< n] x s" for x s
  proof -
    have "x < n" using root_of_bound [OF xs] by simp
    then have "s = x" using r xs root_of_det by blast
    then show ?thesis by simp
  qed
  then show ?thesis unfolding forest_inv_def using r by auto
qed

lemma forest_inv_connected:
  assumes inv: "forest_inv n E {(i, j). i < j \<and> j < n \<and> (i, j) \<in> E} l" and sym: "sym E"
    and dom: "E \<subseteq> {..<n} \<times> {..<n}" and x: "x < n" and y: "y < n"
  shows "(\<exists>r. root_of l x r \<and> root_of l y r) = ((x, y) \<in> E\<^sup>*)"
proof
  assume "\<exists>r. root_of l x r \<and> root_of l y r"
  then obtain r where r: "root_of l x r" "root_of l y r" by blast
  have "(x, r) \<in> E\<^sup>*" "(y, r) \<in> E\<^sup>*" using inv r unfolding forest_inv_def by blast+
  moreover have "sym (E\<^sup>*)" using sym by (rule sym_rtrancl)
  ultimately show "(x, y) \<in> E\<^sup>*" by (meson symD rtrancl_trans)
next
  assume "(x, y) \<in> E\<^sup>*"
  then show "\<exists>r. root_of l x r \<and> root_of l y r"
  proof (induction rule: rtrancl_induct)
    case base
    then show ?case using inv x unfolding forest_inv_def by blast
  next
    case (step y z)
    then obtain r where r: "root_of l x r" "root_of l y r" by blast
    have yz: "y < n" "z < n" using step.hyps(2) dom by auto
    have "\<exists>s. root_of l y s \<and> root_of l z s"
    proof (cases "y = z")
      case True
      then show ?thesis using r by blast
    next
      case False
      then consider "y < z" | "z < y" by linarith
      then show ?thesis
      proof cases
        case 1
        then have "(y, z) \<in> {(i, j). i < j \<and> j < n \<and> (i, j) \<in> E}" using step.hyps(2) yz by simp
        then show ?thesis using inv unfolding forest_inv_def by blast
      next
        case 2
        have "(z, y) \<in> E" using step.hyps(2) sym by (meson symD)
        then have "(z, y) \<in> {(i, j). i < j \<and> j < n \<and> (i, j) \<in> E}" using 2 yz by simp
        then show ?thesis using inv unfolding forest_inv_def by blast
      qed
    qed
    then obtain s where s: "root_of l y s" "root_of l z s" by blast
    have "s = r" using r(2) s(1) root_of_det by blast
    then show ?case using r(1) s(2) by blast
  qed
qed

lemma map_of_None_keys: "(map_of G k = None) = (k \<notin> fst ` set G)"
  by (simp add: map_of_eq_None_iff)

lemma concat_update_group:
  "distinct (map fst G) \<Longrightarrow> k \<in> fst ` set G \<Longrightarrow>
   mset (concat (map snd (map (\<lambda>(k', v). if k' = k then (k', v @ [i]) else (k', v)) G)))
     = mset (concat (map snd G)) + {#i#}"
proof (induction G)
  case Nil
  then show ?case by simp
next
  case (Cons a G)
  obtain k' v where a: "a = (k', v)" by (cases a)
  show ?case
  proof (cases "k' = k")
    case True
    then have "k \<notin> fst ` set G" using Cons.prems(1) a by auto
    then have "map (\<lambda>(k', v). if k' = k then (k', v @ [i]) else (k', v)) G = G"
      by (intro map_idI) (force split: prod.splits)
    then show ?thesis using a True by simp
  next
    case False
    then have "k \<in> fst ` set G" using Cons.prems(2) a by auto
    then show ?thesis using Cons.IH Cons.prems(1) a False by simp
  qed
qed

lemma appendGroup_inv:
  assumes inv: "groups_inv R seen G" and r: "R i k"
  shows "groups_inv R (seen @ [i]) (appendGroup G k i)"
proof (cases "k \<in> fst ` set G")
  case False
  then have ap: "appendGroup G k i = G @ [(k, [i])]"
    by (simp add: appendGroup_def map_of_None_keys [symmetric])
  show ?thesis
    unfolding ap using inv r False unfolding groups_inv_def by auto
next
  case True
  then obtain w where "map_of G k = Some w"
    using map_of_None_keys [of G k] by (cases "map_of G k") auto
  then have ap: "appendGroup G k i = map (\<lambda>(k', v). if k' = k then (k', v @ [i]) else (k', v)) G"
    by (simp add: appendGroup_def)
  have keys: "map fst (appendGroup G k i) = map fst G"
    unfolding ap by (auto split: prod.splits)
  have d: "distinct (map fst G)" using inv by (simp add: groups_inv_def)
  have m: "mset (concat (map snd (appendGroup G k i))) = mset (seen @ [i])"
    unfolding ap using concat_update_group [OF d True, of i] inv by (simp add: groups_inv_def)
  have e: "\<forall>(k', v) \<in> set (appendGroup G k i). v \<noteq> [] \<and> (\<forall>x \<in> set v. R x k')"
    unfolding ap using inv r unfolding groups_inv_def by (fastforce split: if_splits)
  show ?thesis unfolding groups_inv_def using keys d m e by simp
qed

lemma groupByRoot_inv:
  "length l = n \<Longrightarrow> \<forall>x<n. \<exists>r. root_of l x r \<Longrightarrow> \<forall>y s. root_of l y s = R y s \<Longrightarrow>
   \<forall>i \<in> set is. i < n \<Longrightarrow> groups_inv R seen G \<Longrightarrow>
   \<exists>G'. groupByRoot is l G = Some G' \<and> groups_inv R (seen @ is) G'"
proof (induction "is" arbitrary: l G seen)
  case Nil
  then show ?case by simp
next
  case (Cons i "is")
  have i: "i < n" using Cons.prems(4) by simp
  then obtain r where r: "root_of l i r" using Cons.prems(2) by blast
  have tot: "\<forall>x<length l. \<exists>r. root_of l x r" using Cons.prems(1,2) by simp
  from uf_find_total [OF tot r] obtain l' where l': "uf_find l i = Some (l', r)"
      "length l' = length l" "\<forall>y s. root_of l' y s = root_of l y s"
    by blast
  have R: "R i r" using r Cons.prems(3) by simp
  have g: "groups_inv R (seen @ [i]) (appendGroup G r i)"
    using appendGroup_inv [OF Cons.prems(5) R] .
  have a1: "length l' = n" using l'(2) Cons.prems(1) by simp
  have a2: "\<forall>x<n. \<exists>r. root_of l' x r" using l'(3) Cons.prems(2) by simp
  have a3: "\<forall>y s. root_of l' y s = R y s" using l'(3) Cons.prems(3) by simp
  have a4: "\<forall>i \<in> set is. i < n" using Cons.prems(4) by simp
  from Cons.IH [OF a1 a2 a3 a4 g] obtain G' where G': "groupByRoot is l' (appendGroup G r i) = Some G'"
      "groups_inv R ((seen @ [i]) @ is) G'"
    by blast
  have "groupByRoot (i # is) l G = Some G'" using l'(1) G'(1) by simp
  then show ?case using G'(2) by simp
qed

lemma groups_same_root:
  assumes inv: "groups_inv R [0 ..< n] G" and det: "\<And>x r r'. R x r \<Longrightarrow> R x r' \<Longrightarrow> r = r'"
    and tot: "\<forall>x<n. \<exists>r. R x r" and x: "x < n" and y: "y < n"
  shows "(\<exists>g \<in> set (map snd G). x \<in> set g \<and> y \<in> set g) = (\<exists>r. R x r \<and> R y r)"
proof
  assume "\<exists>g \<in> set (map snd G). x \<in> set g \<and> y \<in> set g"
  then obtain k v where kv: "(k, v) \<in> set G" "x \<in> set v" "y \<in> set v" by auto
  then have "R x k \<and> R y k" using inv unfolding groups_inv_def by blast
  then show "\<exists>r. R x r \<and> R y r" by blast
next
  assume "\<exists>r. R x r \<and> R y r"
  then obtain r where r: "R x r" "R y r" by blast
  have all: "set (concat (map snd G)) = {0 ..< n}"
    using inv unfolding groups_inv_def by (metis set_mset_mset set_upt)
  have "x \<in> set (concat (map snd G))" using all x by simp
  then obtain k v where kv: "(k, v) \<in> set G" "x \<in> set v" by auto
  have "y \<in> set (concat (map snd G))" using all y by simp
  then obtain k' v' where kv': "(k', v') \<in> set G" "y \<in> set v'" by auto
  have "R x k" "R y k'" using inv kv kv' unfolding groups_inv_def by blast+
  then have "k = r" "k' = r" using r det by blast+
  moreover have "distinct (map fst G)" using inv by (simp add: groups_inv_def)
  ultimately have "v = v'" using kv(1) kv'(1) by (metis eq_key_imp_eq_value)
  then show "\<exists>g \<in> set (map snd G). x \<in> set g \<and> y \<in> set g"
    using kv kv'(2) by force
qed

lemma spec_similar_sym: "sym (spec_similar u items)"
proof -
  have "spec_jaccard A B = spec_jaccard B A" for A B
    by (simp add: spec_jaccard_def Int_commute Un_commute disj_commute)
  then show ?thesis
    unfolding sym_def spec_similar_def by auto
qed

lemma clusterGroups_correct:
  "\<exists>groups. clusterGroups u items = Some groups
     \<and> mset (concat groups) = mset [0 ..< length items]
     \<and> [] \<notin> set groups
     \<and> (\<forall>x<length items. \<forall>y<length items.
          (\<exists>g \<in> set groups. x \<in> set g \<and> y \<in> set g) = ((x, y) \<in> (spec_similar u items)\<^sup>*))"
proof -
  define n where "n = length items"
  define tokens where "tokens = map (\<lambda>item. significantTokens u (i_Title item)) items"
  define E where "E = spec_similar u items"
  have sym: "sym E" unfolding E_def by (rule spec_similar_sym)
  have dom: "E \<subseteq> {..<n} \<times> {..<n}"
    unfolding E_def spec_similar_def n_def by auto
  have sim: "\<forall>i<n. \<forall>j<n. (jaccardSimilarity (tokens ! i) (tokens ! j) \<ge> 0.3) = ((i, j) \<in> E)"
    unfolding E_def n_def tokens_def by (simp add: spec_similar_code)
  have rng: "\<forall>i \<in> set [0 ..< n]. i < n" by simp
  from compareAll_inv [OF sym sim forest_inv_init rng] obtain l
    where l: "compareAll tokens n [0 ..< n] [0 ..< n] = Some l"
      "forest_inv n E ({} \<union> {(i, j). i \<in> set [0 ..< n] \<and> i < j \<and> j < n \<and> (i, j) \<in> E}) l"
    by blast
  have "{} \<union> {(i, j). i \<in> set [0 ..< n] \<and> i < j \<and> j < n \<and> (i, j) \<in> E}
      = {(i, j). i < j \<and> j < n \<and> (i, j) \<in> E}"
    by auto
  then have inv: "forest_inv n E {(i, j). i < j \<and> j < n \<and> (i, j) \<in> E} l"
    using l(2) by simp
  have len: "length l = n" and tot: "\<forall>x<n. \<exists>r. root_of l x r"
    using inv by (simp_all add: forest_inv_def)
  have g0: "groups_inv (root_of l) [] []" by (simp add: groups_inv_def)
  have same: "\<forall>y s. root_of l y s = root_of l y s" by simp
  from groupByRoot_inv [OF len tot same rng g0] obtain G
    where G: "groupByRoot [0 ..< n] l [] = Some G" "groups_inv (root_of l) ([] @ [0 ..< n]) G"
    by blast
  have ginv: "groups_inv (root_of l) [0 ..< n] G" using G(2) by simp
  have cg: "clusterGroups u items = Some (map snd G)"
    unfolding clusterGroups_def Let_def
    using l(1) G(1) by (simp add: n_def tokens_def)
  have m: "mset (concat (map snd G)) = mset [0 ..< n]"
    using ginv by (simp add: groups_inv_def)
  have ne: "[] \<notin> set (map snd G)"
    using ginv unfolding groups_inv_def by force
  have conn: "(\<exists>g \<in> set (map snd G). x \<in> set g \<and> y \<in> set g) = ((x, y) \<in> E\<^sup>*)"
    if "x < n" "y < n" for x y
    using groups_same_root [OF ginv _ tot that, of ] root_of_det
      forest_inv_connected [OF inv sym dom that]
    by blast
  show ?thesis
    using cg m ne conn unfolding n_def E_def by blast
qed

lemma buildClusters_total:
  "[] \<notin> set groups \<Longrightarrow> \<forall>g \<in> set groups. \<forall>idx \<in> set g. idx < length items \<Longrightarrow>
   \<exists>clusters. buildClusters items groups = Some clusters
      \<and> map c_Items clusters = map (map ((!) items)) groups"
proof (induction groups)
  case Nil
  then show ?case by simp
next
  case (Cons g groups)
  have g: "g \<noteq> []" "list_all (\<lambda>idx. idx < length items) g"
    using Cons.prems by (auto simp: list_all_iff)
  then obtain c where c: "buildCluster items g = Some c" "c_Items c = map ((!) items) g"
    by (simp add: buildCluster_def Let_def)
  from Cons.IH Cons.prems obtain cs where cs: "buildClusters items groups = Some cs"
      "map c_Items cs = map (map ((!) items)) groups"
    by auto
  have "buildClusters items (g # groups) = Some (c # cs)" using c(1) cs(1) by simp
  then show ?case using c(2) cs(2) by simp
qed

lemma clusterItems_correct:
  "\<exists>groups clusters. clusterGroups u items = Some groups \<and> clusterItems u items = Some clusters
     \<and> map c_Items clusters = map (map ((!) items)) groups
     \<and> mset (concat groups) = mset [0 ..< length items]
     \<and> (\<forall>x<length items. \<forall>y<length items.
          (\<exists>g \<in> set groups. x \<in> set g \<and> y \<in> set g) = ((x, y) \<in> (spec_similar u items)\<^sup>*))"
proof -
  from clusterGroups_correct [of u items] obtain groups where gr: "clusterGroups u items = Some groups"
      "mset (concat groups) = mset [0 ..< length items]" "[] \<notin> set groups"
      "\<forall>x<length items. \<forall>y<length items.
          (\<exists>g \<in> set groups. x \<in> set g \<and> y \<in> set g) = ((x, y) \<in> (spec_similar u items)\<^sup>*)"
    by blast
  have "set (concat groups) = {0 ..< length items}"
    using gr(2) by (metis set_mset_mset set_upt)
  then have "\<forall>g \<in> set groups. \<forall>idx \<in> set g. idx < length items" by auto
  from buildClusters_total [OF gr(3) this] obtain clusters
    where cl: "buildClusters items groups = Some clusters"
      "map c_Items clusters = map (map ((!) items)) groups"
    by blast
  have "clusterItems u items = Some clusters" using gr(1) cl(1) by (simp add: clusterItems_def)
  then show ?thesis using gr cl(2) by blast
qed



text \<open>
  C2. The groups hold every position of the input exactly once, so the clusters partition
  the input: taken together, the items of the clusters are the items of the input, none
  lost and none repeated.
\<close>

theorem clusterItems_partition:
  "\<exists>groups clusters. clusterGroups u items = Some groups \<and> clusterItems u items = Some clusters
     \<and> map c_Items clusters = map (map ((!) items)) groups
     \<and> mset (concat groups) = mset [0 ..< length items]
     \<and> mset (concat (map c_Items clusters)) = mset items"
proof -
  from clusterItems_correct [of u items] obtain groups clusters
    where g: "clusterGroups u items = Some groups" "clusterItems u items = Some clusters"
      "map c_Items clusters = map (map ((!) items)) groups"
      "mset (concat groups) = mset [0 ..< length items]"
    by blast
  have "concat (map c_Items clusters) = map ((!) items) (concat groups)"
    using g(3) by (simp add: map_concat)
  then have "mset (concat (map c_Items clusters)) = image_mset ((!) items) (mset [0 ..< length items])"
    using g(4) by (metis mset_map)
  also have "\<dots> = mset (map ((!) items) [0 ..< length items])" by simp
  also have "\<dots> = mset items" by (simp only: map_nth)
  finally show ?thesis using g by blast
qed

theorem clusterItems_partition_witness:
  "clusterGroups exampleTables [it1, it2, it3] = Some [[0, 1], [2]]
   \<and> map_option (map c_Items) (clusterItems exampleTables [it1, it2, it3]) = Some [[it1, it2], [it3]]
   \<and> (\<exists>groups clusters. clusterGroups exampleTables [it1, it2, it3] = Some groups
        \<and> clusterItems exampleTables [it1, it2, it3] = Some clusters
        \<and> map c_Items clusters = map (map ((!) [it1, it2, it3])) groups
        \<and> mset (concat groups) = mset [0 ..< length [it1, it2, it3]]
        \<and> mset (concat (map c_Items clusters)) = mset [it1, it2, it3])"
proof -
  have a: "clusterGroups exampleTables [it1, it2, it3] = Some [[0, 1], [2]]"
    by code_simp
  have b: "map_option (map c_Items) (clusterItems exampleTables [it1, it2, it3]) = Some [[it1, it2], [it3]]"
    by code_simp
  show ?thesis
    using a b clusterItems_partition [of exampleTables "[it1, it2, it3]"] by blast
qed

section \<open>Properties of the detection cycle\<close>

lemma clusterItems_total: "\<exists>clusters. clusterItems u items = Some clusters"
  using clusterItems_correct [of u items] by blast

lemma Detect_list_error:
  "ListItems (store e) s (listOpts now) = Inl err \<Longrightarrow>
   Detect u e s now = Some (s, Inl (Wrapped ''list recent items'' err))"
  by (simp add: Detect_def listOpts_def)

lemma Detect_no_items:
  "ListItems (store e) s (listOpts now) = Inr [] \<Longrightarrow> Detect u e s now = Some (s, Inr [])"
  by (simp add: Detect_def listOpts_def)

lemma Detect_clear_error:
  "ListItems (store e) s (listOpts now) = Inr items \<Longrightarrow> items \<noteq> [] \<Longrightarrow>
   ClearTrends (store e) s = (s1, Some err) \<Longrightarrow>
   Detect u e s now = Some (s1, Inl (Wrapped ''clear trends'' err))"
  by (simp add: Detect_def listOpts_def)

lemma Detect_run:
  assumes "ListItems (store e) s (listOpts now) = Inr items" "items \<noteq> []"
    "ClearTrends (store e) s = (s1, None)"
  shows "Detect u e s now =
     (let items1 = (case llm e of None \<Rightarrow> items | Some ev \<Rightarrow> fst (llmFilter ev items))
      in if llm e \<noteq> None \<and> items1 = [] then Some (s1, Inr [])
         else Option.bind (clusterItems u items1) (\<lambda>clusters.
                Some (fst (scoreAll e now clusters s1 []),
                      Inr (sort_key (\<lambda>t. - t_Score t) (snd (scoreAll e now clusters s1 []))))))"
  using assms by (simp add: Detect_def listOpts_def Let_def case_prod_beta)

lemma sorted_descending:
  "sorted_wrt (\<lambda>a b. t_Score a \<ge> t_Score b) (sort_key (\<lambda>t. - t_Score t) trends)"
proof -
  have "sorted (map (\<lambda>t. - t_Score t) (sort_key (\<lambda>t. - t_Score t) trends))"
    by (rule sorted_sort_key)
  then show ?thesis
    by (simp add: sorted_map)
qed

lemma Detect_run_result:
  assumes "ListItems (store e) s (listOpts now) = Inr items" "items \<noteq> []"
    "ClearTrends (store e) s = (s1, None)"
  shows "\<exists>s' trends. Detect u e s now = Some (s', Inr trends)
           \<and> sorted_wrt (\<lambda>a b. t_Score a \<ge> t_Score b) trends"
proof -
  define items1 where "items1 = (case llm e of None \<Rightarrow> items | Some ev \<Rightarrow> fst (llmFilter ev items))"
  obtain clusters where c: "clusterItems u items1 = Some clusters"
    using clusterItems_total by blast
  show ?thesis
  proof (cases "llm e \<noteq> None \<and> items1 = []")
    case True
    then have "Detect u e s now = Some (s1, Inr [])"
      unfolding Detect_run [OF assms] items1_def [symmetric] Let_def by simp
    then show ?thesis by simp
  next
    case False
    then have "Detect u e s now = Some (fst (scoreAll e now clusters s1 []),
        Inr (sort_key (\<lambda>t. - t_Score t) (snd (scoreAll e now clusters s1 []))))"
      unfolding Detect_run [OF assms] items1_def [symmetric] Let_def using c by auto
    then show ?thesis using sorted_descending by blast
  qed
qed

lemma Detect_shape:
  "\<exists>s' r. Detect u e s now = Some (s', r)
      \<and> (case r of Inl err \<Rightarrow> True
          | Inr trends \<Rightarrow> sorted_wrt (\<lambda>a b. t_Score a \<ge> t_Score b) trends)"
proof (cases "ListItems (store e) s (listOpts now)")
  case (Inl err)
  then show ?thesis using Detect_list_error [OF Inl] by simp
next
  case (Inr items)
  show ?thesis
  proof (cases "items = []")
    case True
    then show ?thesis using Detect_no_items Inr by fastforce
  next
    case False
    obtain s1 r where cl: "ClearTrends (store e) s = (s1, r)" by (cases "ClearTrends (store e) s")
    show ?thesis
    proof (cases r)
      case None
      then show ?thesis using Detect_run_result [OF Inr False] cl by fastforce
    next
      case (Some err)
      then show ?thesis using Detect_clear_error [OF Inr False] cl by fastforce
    qed
  qed
qed

lemma scoreAll_detected:
  "\<forall>t \<in> set (snd (scoreAll e now clusters s trends)).
     t \<in> set trends
     \<or> (\<exists>cluster \<in> set clusters. \<exists>s' s''.
           UpsertTrend (store e) s' (newTrend (scoreCluster e s' now cluster) now cluster)
             = (s'', Inr t))"
proof (induction clusters arbitrary: s trends)
  case Nil
  then show ?case by simp
next
  case (Cons cluster clusters)
  obtain s1 r where up: "UpsertTrend (store e) s (newTrend (scoreCluster e s now cluster) now cluster)
      = (s1, r)"
    by (cases "UpsertTrend (store e) s (newTrend (scoreCluster e s now cluster) now cluster)")
  show ?case
  proof (cases r)
    case (Inl err)
    then have "scoreAll e now (cluster # clusters) s trends = scoreAll e now clusters s1 trends"
      using up by (simp add: Let_def)
    then show ?thesis using Cons.IH [of s1 trends] by auto
  next
    case (Inr t')
    then have "scoreAll e now (cluster # clusters) s trends
        = scoreAll e now clusters s1 (trends @ [t'])"
      using up by (simp add: Let_def)
    moreover have "UpsertTrend (store e) s (newTrend (scoreCluster e s now cluster) now cluster)
        = (s1, Inr t')"
      using up Inr by simp
    ultimately show ?thesis using Cons.IH [of s1 "trends @ [t']"] by fastforce
  qed
qed

lemma Detect_run_detected:
  assumes "ListItems (store e) s (listOpts now) = Inr items" "items \<noteq> []"
    "ClearTrends (store e) s = (s1, None)"
    and "\<not> (llm e \<noteq> None \<and> (case llm e of None \<Rightarrow> items | Some ev \<Rightarrow> fst (llmFilter ev items)) = [])"
  shows "\<exists>clusters s2 detected trends.
      clusterItems u (case llm e of None \<Rightarrow> items | Some ev \<Rightarrow> fst (llmFilter ev items)) = Some clusters
      \<and> scoreAll e now clusters s1 [] = (s2, detected)
      \<and> Detect u e s now = Some (s2, Inr trends)
      \<and> mset trends = mset detected
      \<and> sorted_wrt (\<lambda>a b. t_Score a \<ge> t_Score b) trends
      \<and> (\<forall>t \<in> set trends. \<exists>cluster \<in> set clusters. \<exists>s' s''.
            UpsertTrend (store e) s' (newTrend (scoreCluster e s' now cluster) now cluster)
              = (s'', Inr t))"
proof -
  define items1 where "items1 = (case llm e of None \<Rightarrow> items | Some ev \<Rightarrow> fst (llmFilter ev items))"
  obtain clusters where c: "clusterItems u items1 = Some clusters"
    using clusterItems_total by blast
  obtain s2 detected where sc: "scoreAll e now clusters s1 [] = (s2, detected)"
    by (cases "scoreAll e now clusters s1 []")
  define trends where "trends = sort_key (\<lambda>t. - t_Score t) detected"
  have d: "Detect u e s now = Some (s2, Inr trends)"
    unfolding Detect_run [OF assms(1,2,3)] items1_def [symmetric] Let_def trends_def
    using c sc assms(4) [folded items1_def] by auto
  have m: "mset trends = mset detected" by (simp add: trends_def)
  have st: "sorted_wrt (\<lambda>a b. t_Score a \<ge> t_Score b) trends"
    unfolding trends_def by (rule sorted_descending)
  have "\<forall>t \<in> set detected. \<exists>cluster \<in> set clusters. \<exists>s' s''.
            UpsertTrend (store e) s' (newTrend (scoreCluster e s' now cluster) now cluster)
              = (s'', Inr t)"
    using scoreAll_detected [of e now clusters s1 "[]"] sc by simp
  moreover have "set trends = set detected" by (simp add: trends_def)
  ultimately have o: "\<forall>t \<in> set trends. \<exists>cluster \<in> set clusters. \<exists>s' s''.
            UpsertTrend (store e) s' (newTrend (scoreCluster e s' now cluster) now cluster)
              = (s'', Inr t)"
    by simp
  show ?thesis
    unfolding items1_def [symmetric]
    by (rule exI [of _ clusters], rule exI [of _ s2], rule exI [of _ detected],
        rule exI [of _ trends]) (intro conjI c sc d m st o)
qed

text \<open>
  C6. \<open>Detect\<close> always returns, and the trends it returns are sorted by composite score
  in descending order. When the store lists no item it returns the empty result with no
  error, leaving the store as it was. When items are listed and the trends are cleared,
  the result is the empty list if the evaluator is enabled and keeps no item; otherwise
  it is a rearrangement, sorted by descending score, of the trends detected by the loop
  over the clusters of the (filtered) items, each of them the trend that the store
  returned for a cluster upserted with its composite score.
\<close>

theorem Detect_sorted_descending:
  "(\<exists>s' r. Detect u e s now = Some (s', r))
   \<and> (\<forall>s' trends. Detect u e s now = Some (s', Inr trends) \<longrightarrow>
         sorted_wrt (\<lambda>a b. t_Score a \<ge> t_Score b) trends)
   \<and> (ListItems (store e) s (listOpts now) = Inr [] \<longrightarrow> Detect u e s now = Some (s, Inr []))
   \<and> (\<forall>items s1.
         ListItems (store e) s (listOpts now) = Inr items \<and> items \<noteq> []
         \<and> ClearTrends (store e) s = (s1, None) \<longrightarrow>
         (let items1 = (case llm e of None \<Rightarrow> items | Some ev \<Rightarrow> fst (llmFilter ev items))
          in if llm e \<noteq> None \<and> items1 = [] then Detect u e s now = Some (s1, Inr [])
             else \<exists>clusters s2 detected trends.
                    clusterItems u items1 = Some clusters
                    \<and> scoreAll e now clusters s1 [] = (s2, detected)
                    \<and> Detect u e s now = Some (s2, Inr trends)
                    \<and> mset trends = mset detected
                    \<and> sorted_wrt (\<lambda>a b. t_Score a \<ge> t_Score b) trends
                    \<and> (\<forall>t \<in> set trends. \<exists>cluster \<in> set clusters. \<exists>s' s''.
                          UpsertTrend (store e) s'
                            (newTrend (scoreCluster e s' now cluster) now cluster)
                          = (s'', Inr t))))"
proof -
  obtain s' r where d: "Detect u e s now = Some (s', r)"
    "case r of Inl err \<Rightarrow> True | Inr trends \<Rightarrow> sorted_wrt (\<lambda>a b. t_Score a \<ge> t_Score b) trends"
    using Detect_shape [of u e s now] by blast
  have a: "\<exists>s' r. Detect u e s now = Some (s', r)" using d(1) by blast
  have b: "\<forall>s'' trends. Detect u e s now = Some (s'', Inr trends) \<longrightarrow>
         sorted_wrt (\<lambda>a b. t_Score a \<ge> t_Score b) trends"
    using d by auto
  have c: "ListItems (store e) s (listOpts now) = Inr [] \<longrightarrow> Detect u e s now = Some (s, Inr [])"
    using Detect_no_items [of e s now u] by blast
  have e: "let items1 = (case llm e of None \<Rightarrow> items | Some ev \<Rightarrow> fst (llmFilter ev items))
          in if llm e \<noteq> None \<and> items1 = [] then Detect u e s now = Some (s1, Inr [])
             else \<exists>clusters s2 detected trends.
                    clusterItems u items1 = Some clusters
                    \<and> scoreAll e now clusters s1 [] = (s2, detected)
                    \<and> Detect u e s now = Some (s2, Inr trends)
                    \<and> mset trends = mset detected
                    \<and> sorted_wrt (\<lambda>a b. t_Score a \<ge> t_Score b) trends
                    \<and> (\<forall>t \<in> set trends. \<exists>cluster \<in> set clusters. \<exists>s' s''.
                          UpsertTrend (store e) s'
                            (newTrend (scoreCluster e s' now cluster) now cluster)
                          = (s'', Inr t))"
    if h: "ListItems (store e) s (listOpts now) = Inr items" "items \<noteq> []"
      "ClearTrends (store e) s = (s1, None)" for items s1
  proof (cases "llm e \<noteq> None \<and> (case llm e of None \<Rightarrow> items | Some ev \<Rightarrow> fst (llmFilter ev items)) = []")
    case True
    then have "Detect u e s now = Some (s1, Inr [])"
      unfolding Detect_run [OF h] Let_def by simp
    then show ?thesis unfolding Let_def if_P [OF True] .
  next
    case False
    from Detect_run_detected [OF h False, of u] show ?thesis
      unfolding Let_def if_not_P [OF False] .
  qed
  have d': "\<forall>items s1.
         ListItems (store e) s (listOpts now) = Inr items \<and> items \<noteq> []
         \<and> ClearTrends (store e) s = (s1, None) \<longrightarrow>
         (let items1 = (case llm e of None \<Rightarrow> items | Some ev \<Rightarrow> fst (llmFilter ev items))
          in if llm e \<noteq> None \<and> items1 = [] then Detect u e s now = Some (s1, Inr [])
             else \<exists>clusters s2 detected trends.
                    clusterItems u items1 = Some clusters
                    \<and> scoreAll e now clusters s1 [] = (s2, detected)
                    \<and> Detect u e s now = Some (s2, Inr trends)
                    \<and> mset trends = mset detected
                    \<and> sorted_wrt (\<lambda>a b. t_Score a \<ge> t_Score b) trends
                    \<and> (\<forall>t \<in> set trends. \<exists>cluster \<in> set clusters. \<exists>s' s''.
                          UpsertTrend (store e) s'
                            (newTrend (scoreCluster e s' now cluster) now cluster)
                          = (s'', Inr t)))"
    by (intro allI impI, elim conjE, rule e)
  show ?thesis by (intro conjI a b c d')
qed

theorem Detect_sorted_descending_witness:
  "ListItems (store eng0) memEmpty (listOpts T0) = Inr []
   \<and> Detect exampleTables eng0 memEmpty T0 = Some (memEmpty, Inr [])
   \<and> ListItems (store eng0) mem0 (listOpts T0) = Inr [it1, it2, it3]
   \<and> ClearTrends (store eng0) mem0 = (mem0, None)
   \<and> map_option (map_sum id (map (\<lambda>t. (t_Topic t, t_Score t, t_SourceCount t, t_ItemIDs t))) \<circ> snd)
        (Detect exampleTables eng0 mem0 T0)
       = Some (Inr [(runes ''OpenAI releases GPT-5'', 116 / 3, 2, [''hackernews:1'', ''reddit:2'']),
                    (runes ''Weather forecast for Tuesday'', 10, 1, [''rss:3''])])
   \<and> (\<exists>clusters s2 detected trends.
         clusterItems exampleTables [it1, it2, it3] = Some clusters
         \<and> scoreAll eng0 T0 clusters mem0 [] = (s2, detected)
         \<and> Detect exampleTables eng0 mem0 T0 = Some (s2, Inr trends)
         \<and> mset trends = mset detected
         \<and> sorted_wrt (\<lambda>a b. t_Score a \<ge> t_Score b) trends)"
proof -
  have a: "ListItems (store eng0) memEmpty (listOpts T0) = Inr []"
    by code_simp
  have b: "ListItems (store eng0) mem0 (listOpts T0) = Inr [it1, it2, it3]"
    "ClearTrends (store eng0) mem0 = (mem0, None)"
    by code_simp+
  have v: "map_option (map_sum id (map (\<lambda>t. (t_Topic t, t_Score t, t_SourceCount t, t_ItemIDs t))) \<circ> snd)
        (Detect exampleTables eng0 mem0 T0)
       = Some (Inr [(runes ''OpenAI releases GPT-5'', 116 / 3, 2, [''hackernews:1'', ''reddit:2'']),
                    (runes ''Weather forecast for Tuesday'', 10, 1, [''rss:3''])])"
    by code_simp
  have l: "llm eng0 = None" by (simp add: eng0_def NewEngine_def)
  have ne: "[it1, it2, it3] \<noteq> []" by simp
  note t0 = Detect_sorted_descending [of exampleTables eng0 memEmpty T0]
  note t1 = Detect_sorted_descending [of exampleTables eng0 mem0 T0]
  have r0: "Detect exampleTables eng0 memEmpty T0 = Some (memEmpty, Inr [])"
    using t0 a by blast
  have "let items1 = (case llm eng0 of None \<Rightarrow> [it1, it2, it3]
                      | Some ev \<Rightarrow> fst (llmFilter ev [it1, it2, it3]))
        in if llm eng0 \<noteq> None \<and> items1 = []
           then Detect exampleTables eng0 mem0 T0 = Some (mem0, Inr [])
           else \<exists>clusters s2 detected trends.
                  clusterItems exampleTables items1 = Some clusters
                  \<and> scoreAll eng0 T0 clusters mem0 [] = (s2, detected)
                  \<and> Detect exampleTables eng0 mem0 T0 = Some (s2, Inr trends)
                  \<and> mset trends = mset detected
                  \<and> sorted_wrt (\<lambda>a b. t_Score a \<ge> t_Score b) trends
                  \<and> (\<forall>t \<in> set trends. \<exists>cluster \<in> set clusters. \<exists>s' s''.
                        UpsertTrend (store eng0) s'
                          (newTrend (scoreCluster eng0 s' T0 cluster) T0 cluster)
                        = (s'', Inr t))"
    using t1 b ne by blast
  then have r1: "\<exists>clusters s2 detected trends.
         clusterItems exampleTables [it1, it2, it3] = Some clusters
         \<and> scoreAll eng0 T0 clusters mem0 [] = (s2, detected)
         \<and> Detect exampleTables eng0 mem0 T0 = Some (s2, Inr trends)
         \<and> mset trends = mset detected
         \<and> sorted_wrt (\<lambda>a b. t_Score a \<ge> t_Score b) trends"
    unfolding Let_def l by auto
  show ?thesis
    using a b v r0 r1 by blast
qed

lemma itemVelocity_llm: "itemVelocity (e\<lparr>llm := x\<rparr>) s now item = itemVelocity e s now item"
  by (simp add: itemVelocity_def)

lemma scoreCluster_llm: "scoreCluster (e\<lparr>llm := x\<rparr>) s now c = scoreCluster e s now c"
  by (simp add: scoreCluster_def velocityScore_def itemVelocity_llm)

lemma scoreAll_llm: "scoreAll (e\<lparr>llm := x\<rparr>) now cs s ts = scoreAll e now cs s ts"
  by (induction cs arbitrary: s ts) (simp_all add: scoreCluster_llm split: prod.splits sum.splits)

lemma llmFilter_error: "EvaluateItems ev items = Inl err \<Longrightarrow> llmFilter ev items = (items, Some err)"
  by (simp add: llmFilter_def)

lemma llmFilter_zero: "EvaluateItems ev items = Inr [] \<Longrightarrow> llmFilter ev items = ([], None)"
  by (simp add: llmFilter_def)

lemma EvaluateItems_failures:
  assumes "items \<noteq> []"
    and "client ev items = RequestError \<or> client ev items = NetworkError
       \<or> (\<exists>status body. client ev items = Response status body \<and> status \<noteq> 200)
       \<or> client ev items = Response 200 None
       \<or> client ev items = Response 200 (Some [])
       \<or> (\<exists>rest. client ev items = Response 200 (Some (Garbled # rest)))"
  shows "\<exists>err. EvaluateItems ev items = Inl err"
  using assms by (auto simp: EvaluateItems_def callOpenAI_def callAnthropic_def)

lemma Detect_llm_error:
  assumes l: "llm e = Some ev" and li: "ListItems (store e) s (listOpts now) = Inr items"
    and ne: "items \<noteq> []" and ev: "EvaluateItems ev items = Inl err"
  shows "Detect u e s now = Detect u (e\<lparr>llm := None\<rparr>) s now"
proof -
  let ?e = "e\<lparr>llm := None\<rparr>"
  have li': "ListItems (store ?e) s (listOpts now) = Inr items" using li by simp
  obtain s1 r where cl: "ClearTrends (store e) s = (s1, r)" by (cases "ClearTrends (store e) s")
  then have cl': "ClearTrends (store ?e) s = (s1, r)" by simp
  show ?thesis
  proof (cases r)
    case (Some cerr)
    show ?thesis
      using Detect_clear_error [OF li ne cl [unfolded Some]]
        Detect_clear_error [OF li' ne cl' [unfolded Some]] by simp
  next
    case None
    show ?thesis
      unfolding Detect_run [OF li ne cl [unfolded None]] Detect_run [OF li' ne cl' [unfolded None]]
      using l ne by (simp add: llmFilter_error [OF ev] scoreAll_llm)
  qed
qed

lemma Detect_llm_zero:
  assumes l: "llm e = Some ev" and li: "ListItems (store e) s (listOpts now) = Inr items"
    and ne: "items \<noteq> []" and cl: "ClearTrends (store e) s = (s1, None)"
    and ev: "EvaluateItems ev items = Inr []"
  shows "Detect u e s now = Some (s1, Inr [])"
  unfolding Detect_run [OF li ne cl] using l by (simp add: llmFilter_zero [OF ev])

text \<open>
  C7, as the code has it. Let the evaluator be enabled and the store list at least one
  item. A request that cannot be built, a network error, a status other than 200, a body that does not decode, a body
  without choices and a text that does not parse each make \<open>EvaluateItems\<close> return an
  error, and on any such error \<open>Detect\<close> behaves exactly as the engine without the
  evaluator does on the unfiltered items. When the evaluation succeeds with zero results,
  \<open>Detect\<close> does not fall back: it returns the empty result and no error. In every case,
  once the trends are cleared, \<open>Detect\<close> returns no error.
\<close>

theorem Detect_llm_fail_soft:
  assumes "llm e = Some ev" and "ListItems (store e) s (listOpts now) = Inr items" and "items \<noteq> []"
  shows "((client ev items = RequestError \<or> client ev items = NetworkError
           \<or> (\<exists>status body. client ev items = Response status body \<and> status \<noteq> 200)
           \<or> client ev items = Response 200 None
           \<or> client ev items = Response 200 (Some [])
           \<or> (\<exists>rest. client ev items = Response 200 (Some (Garbled # rest))))
          \<longrightarrow> (\<exists>err. EvaluateItems ev items = Inl err))
       \<and> ((\<exists>err. EvaluateItems ev items = Inl err)
          \<longrightarrow> Detect u e s now = Detect u (e\<lparr>llm := None\<rparr>) s now)
       \<and> (\<forall>s1. ClearTrends (store e) s = (s1, None) \<and> EvaluateItems ev items = Inr []
          \<longrightarrow> Detect u e s now = Some (s1, Inr []))
       \<and> (\<forall>s1. ClearTrends (store e) s = (s1, None)
          \<longrightarrow> (\<exists>s' trends. Detect u e s now = Some (s', Inr trends)))"
proof -
  have a: "(client ev items = RequestError \<or> client ev items = NetworkError
           \<or> (\<exists>status body. client ev items = Response status body \<and> status \<noteq> 200)
           \<or> client ev items = Response 200 None
           \<or> client ev items = Response 200 (Some [])
           \<or> (\<exists>rest. client ev items = Response 200 (Some (Garbled # rest))))
          \<longrightarrow> (\<exists>err. EvaluateItems ev items = Inl err)"
    using EvaluateItems_failures [OF assms(3)] by blast
  have b: "(\<exists>err. EvaluateItems ev items = Inl err)
          \<longrightarrow> Detect u e s now = Detect u (e\<lparr>llm := None\<rparr>) s now"
    using Detect_llm_error [OF assms] by blast
  have c: "\<forall>s1. ClearTrends (store e) s = (s1, None) \<and> EvaluateItems ev items = Inr []
          \<longrightarrow> Detect u e s now = Some (s1, Inr [])"
    using Detect_llm_zero [OF assms] by blast
  have d: "\<forall>s1. ClearTrends (store e) s = (s1, None)
          \<longrightarrow> (\<exists>s' trends. Detect u e s now = Some (s', Inr trends))"
    using Detect_run_result [OF assms(2,3)] by blast
  show ?thesis using a b c d by blast
qed

text \<open>
  The claim that zero results make \<open>Detect\<close> continue with the unfiltered items fails
  when the provider scores every item below the minimum, and when it answers with an empty
  array: the result is empty, while the unfiltered items give two trends.
\<close>

theorem Detect_llm_zero_results_counterexample:
  "EvaluateItems (evWith ''openai'' lowScores) [it1, it2, it3] = Inr []
   \<and> EvaluateItems (evWith ''openai'' (Response 200 (Some [Results []]))) [it1, it2, it3] = Inr []
   \<and> map_option snd (Detect exampleTables (engWith ''openai'' (Response 200 (Some [Results []]))) mem0 T0)
       = Some (Inr [])
   \<and> ListItems (store (engWith ''openai'' lowScores)) mem0 (listOpts T0) = Inr [it1, it2, it3]
   \<and> map_option snd (Detect exampleTables (engWith ''openai'' lowScores) mem0 T0) = Some (Inr [])
   \<and> map_option (map_sum id (map t_Topic) \<circ> snd) (Detect exampleTables eng0 mem0 T0)
       = Some (Inr [runes ''OpenAI releases GPT-5'', runes ''Weather forecast for Tuesday''])"
  by code_simp

theorem Detect_llm_fail_soft_witness:
  "llm (engWith ''openai'' NetworkError) = Some (evWith ''openai'' NetworkError)
   \<and> ListItems (store (engWith ''openai'' NetworkError)) mem0 (listOpts T0) = Inr [it1, it2, it3]
   \<and> [it1, it2, it3] \<noteq> []
   \<and> client (evWith ''openai'' NetworkError) [it1, it2, it3] = NetworkError
   \<and> Detect exampleTables (engWith ''openai'' NetworkError) mem0 T0
       = Detect exampleTables ((engWith ''openai'' NetworkError)\<lparr>llm := None\<rparr>) mem0 T0
   \<and> Detect exampleTables (engWith ''anthropic'' (Response 500 None)) mem0 T0
       = Detect exampleTables ((engWith ''anthropic'' (Response 500 None))\<lparr>llm := None\<rparr>) mem0 T0
   \<and> Detect exampleTables (engWith ''openai'' (Response 200 (Some [Garbled]))) mem0 T0
       = Detect exampleTables ((engWith ''openai'' (Response 200 (Some [Garbled])))\<lparr>llm := None\<rparr>) mem0 T0
   \<and> Detect exampleTables (engWith ''openai'' lowScores) mem0 T0 = Some (mem0, Inr [])"
proof -
  have l: "llm (engWith p r) = Some (evWith p r)" for p r
    by (simp add: engWith_def NewEngine_def)
  have li: "ListItems (store (engWith p r)) mem0 (listOpts T0) = Inr [it1, it2, it3]" for p r
    by (simp add: engWith_def NewEngine_def memStore_def mem0_def listOpts_def)
  have ne: "[it1, it2, it3] \<noteq> []" by simp
  have c: "client (evWith p r) [it1, it2, it3] = r" for p r
    by (simp add: evWith_def NewLLMEvaluator_def)
  have cl: "ClearTrends (store (engWith p r)) mem0 = (mem0, None)" for p r
    by (simp add: engWith_def NewEngine_def memStore_def mem0_def)
  have z: "EvaluateItems (evWith ''openai'' lowScores) [it1, it2, it3] = Inr []"
    by code_simp
  have n: "(500::nat) \<noteq> 200" by simp
  note t1 = Detect_llm_fail_soft [OF l [of "''openai''" NetworkError] li [of "''openai''" NetworkError] ne]
  note t2 = Detect_llm_fail_soft [OF l [of "''anthropic''" "Response 500 None"]
      li [of "''anthropic''" "Response 500 None"] ne]
  note t3 = Detect_llm_fail_soft [OF l [of "''openai''" "Response 200 (Some [Garbled])"]
      li [of "''openai''" "Response 200 (Some [Garbled])"] ne]
  note t4 = Detect_llm_fail_soft [OF l [of "''openai''" lowScores] li [of "''openai''" lowScores] ne]
  have r1: "Detect exampleTables (engWith ''openai'' NetworkError) mem0 T0
       = Detect exampleTables ((engWith ''openai'' NetworkError)\<lparr>llm := None\<rparr>) mem0 T0"
    using t1 c [of "''openai''" NetworkError] by blast
  have r2: "Detect exampleTables (engWith ''anthropic'' (Response 500 None)) mem0 T0
       = Detect exampleTables ((engWith ''anthropic'' (Response 500 None))\<lparr>llm := None\<rparr>) mem0 T0"
    using t2 c [of "''anthropic''" "Response 500 None"] n by blast
  have r3: "Detect exampleTables (engWith ''openai'' (Response 200 (Some [Garbled]))) mem0 T0
       = Detect exampleTables ((engWith ''openai'' (Response 200 (Some [Garbled])))\<lparr>llm := None\<rparr>) mem0 T0"
    using t3 c [of "''openai''" "Response 200 (Some [Garbled])"] by blast
  have r4: "Detect exampleTables (engWith ''openai'' lowScores) mem0 T0 = Some (mem0, Inr [])"
    using t4 cl [of "''openai''" lowScores] z by blast
  show ?thesis
    using l [of "''openai''" NetworkError] li [of "''openai''" NetworkError] ne
      c [of "''openai''" NetworkError] r1 r2 r3 r4
    by blast
qed

lemma itemVelocity_store_error:
  "GetSnapshots (store e) s (i_ID item) (now - 6 * hour) = Inl err \<Longrightarrow> itemVelocity e s now item = 0"
  by (simp add: itemVelocity_def)

lemma scoreAll_upsert_error:
  "UpsertTrend (store e) s (newTrend (scoreCluster e s now cluster) now cluster) = (s', Inl err) \<Longrightarrow>
   scoreAll e now (cluster # clusters) s trends = scoreAll e now clusters s' trends"
  by (simp add: Let_def)

text \<open>
  C8, as the code has it. An error of listing the recent items, or of clearing the trends,
  aborts \<open>Detect\<close>, which returns that error wrapped. Once both have succeeded
  \<open>Detect\<close> returns no error: an error of fetching the snapshots of an item makes the
  velocity of that item 0, and an error of upserting a trend leaves that trend out while
  the loop goes on with the next cluster.
\<close>

theorem Detect_store_errors:
  "(\<forall>err. ListItems (store e) s (listOpts now) = Inl err
       \<longrightarrow> Detect u e s now = Some (s, Inl (Wrapped ''list recent items'' err)))
   \<and> (\<forall>items s1 err. ListItems (store e) s (listOpts now) = Inr items \<and> items \<noteq> []
          \<and> ClearTrends (store e) s = (s1, Some err)
       \<longrightarrow> Detect u e s now = Some (s1, Inl (Wrapped ''clear trends'' err)))
   \<and> (\<forall>items s1. ListItems (store e) s (listOpts now) = Inr items
          \<and> ClearTrends (store e) s = (s1, None)
       \<longrightarrow> (\<exists>s' trends. Detect u e s now = Some (s', Inr trends)))
   \<and> (\<forall>s2 item err. GetSnapshots (store e) s2 (i_ID item) (now - 6 * hour) = Inl err
       \<longrightarrow> itemVelocity e s2 now item = 0)
   \<and> (\<forall>s2 s3 cluster clusters trends err.
          UpsertTrend (store e) s2 (newTrend (scoreCluster e s2 now cluster) now cluster) = (s3, Inl err)
       \<longrightarrow> scoreAll e now (cluster # clusters) s2 trends = scoreAll e now clusters s3 trends)"
proof -
  have c: "\<exists>s' trends. Detect u e s now = Some (s', Inr trends)"
    if "ListItems (store e) s (listOpts now) = Inr items" "ClearTrends (store e) s = (s1, None)"
    for items s1
  proof (cases "items = []")
    case True
    then show ?thesis using Detect_no_items [of e s now] that(1) by simp
  next
    case False
    then show ?thesis using Detect_run_result [OF that(1) False that(2)] by blast
  qed
  show ?thesis
    using Detect_list_error [of e s now] Detect_clear_error [of e s now] c
      itemVelocity_store_error [of e _ _ now] scoreAll_upsert_error [of e _ now]
    by blast
qed

text \<open>
  The claim that every store failure aborts the cycle fails for the snapshot query and for
  the upsert: with a database that fails every snapshot query \<open>Detect\<close> still returns
  two trends, and with a store that fails every upsert it returns the empty result, in
  both cases without an error.
\<close>

theorem Detect_store_errors_counterexample:
  "GetSnapshots (store eng0) memSnapFail ''hackernews:1'' (T0 - 6 * hour)
     = Inl (Wrapped ''get snapshots'' (Failure ''disk I/O error''))
   \<and> map_option (map_sum id (map t_Score) \<circ> snd) (Detect exampleTables eng0 memSnapFail T0)
     = Some (Inr [98 / 3, 10])
   \<and> snd (UpsertTrend (store eng0) memUpsertFail (newTrend 10 T0 declining))
     = Inl (Wrapped ''insert trend'' (Failure ''disk''))
   \<and> map_option snd (Detect exampleTables eng0 memUpsertFail T0) = Some (Inr [])"
  by code_simp

theorem Detect_store_errors_witness:
  "ListItems (store eng0) memListFail (listOpts T0) = Inl (Failure ''list items'')
   \<and> Detect exampleTables eng0 memListFail T0
       = Some (memListFail, Inl (Wrapped ''list recent items'' (Failure ''list items'')))
   \<and> ListItems (store eng0) memClearFail (listOpts T0) = Inr [it1, it2, it3]
   \<and> ClearTrends (store eng0) memClearFail = (memClearFail, Some (Failure ''delete from trends''))
   \<and> Detect exampleTables eng0 memClearFail T0
       = Some (memClearFail, Inl (Wrapped ''clear trends'' (Failure ''delete from trends'')))
   \<and> GetSnapshots (store eng0) memSnapFail (i_ID it1) (T0 - 6 * hour)
       = Inl (Wrapped ''get snapshots'' (Failure ''disk I/O error''))
   \<and> itemVelocity eng0 memSnapFail T0 it1 = 0
   \<and> ListItems (store eng0) memSnapFail (listOpts T0) = Inr [it1, it2, it3]
   \<and> ClearTrends (store eng0) memSnapFail = (memSnapFail, None)
   \<and> (\<exists>s' trends. Detect exampleTables eng0 memSnapFail T0 = Some (s', Inr trends))"
proof -
  have a: "ListItems (store eng0) memListFail (listOpts T0) = Inl (Failure ''list items'')"
    by code_simp
  have b: "ListItems (store eng0) memClearFail (listOpts T0) = Inr [it1, it2, it3]"
    "ClearTrends (store eng0) memClearFail = (memClearFail, Some (Failure ''delete from trends''))"
    by code_simp+
  have c: "GetSnapshots (store eng0) memSnapFail (i_ID it1) (T0 - 6 * hour)
       = Inl (Wrapped ''get snapshots'' (Failure ''disk I/O error''))"
    by code_simp
  have d: "ListItems (store eng0) memSnapFail (listOpts T0) = Inr [it1, it2, it3]"
    "ClearTrends (store eng0) memSnapFail = (memSnapFail, None)"
    by code_simp+
  have ne: "[it1, it2, it3] \<noteq> []" by simp
  have r1: "Detect exampleTables eng0 memListFail T0
       = Some (memListFail, Inl (Wrapped ''list recent items'' (Failure ''list items'')))"
    using Detect_store_errors [of eng0 memListFail T0] a by simp
  have r2: "Detect exampleTables eng0 memClearFail T0
       = Some (memClearFail, Inl (Wrapped ''clear trends'' (Failure ''delete from trends'')))"
    using Detect_store_errors [of eng0 memClearFail T0] b ne by simp
  have r3: "itemVelocity eng0 memSnapFail T0 it1 = 0"
    using Detect_store_errors [of eng0 memSnapFail T0] c by blast
  have r4: "\<exists>s' trends. Detect exampleTables eng0 memSnapFail T0 = Some (s', Inr trends)"
    using Detect_store_errors [of eng0 memSnapFail T0] d by simp
  show ?thesis
    using a b c d r1 r2 r3 r4 by simp
qed

end
